theory Spec2Isabelle
  imports Main "HOL-Library.Word" "HOL-Library.AList"
begin

section \<open>Data model of the offset storage (offsets\_store.go)\<close>

text \<open>
  Go's \<open>int64\<close> and \<open>int32\<close> are words that wrap around; their order is the signed one
  (\<open><s\<close>, \<open>\<le>s\<close>). \<open>uint64\<close> is a 64-bit word read unsigned: the conversion
  \<open>uint64(x)\<close> keeps the bits. \<open>TopicPartitionCount\<close>, \<open>Intervals\<close> and
  \<open>TotalPartitions\<close> are Go \<open>int\<close>s that are only compared, passed to \<open>make\<close> or
  incremented once per stored partition; they are modelled as \<open>int\<close>.
\<close>

type_synonym int64 = "64 word"
type_synonym int32 = "32 word"

record PartitionOffset =
  po_Cluster :: string
  po_Topic :: string
  po_Partition :: int32
  po_Offset :: int64
  po_Timestamp :: int64
  po_Group :: string
  po_TopicPartitionCount :: int

record BrokerOffset =
  bo_Offset :: int64
  bo_Timestamp :: int64

record ConsumerOffset =
  co_Offset :: int64
  co_Timestamp :: int64
  co_Lag :: int64
  co_artificial :: bool

datatype StatusConstant =
  StatusNotFound | StatusOK | StatusWarning | StatusError
  | StatusStop | StatusStall | StatusRewind

text \<open>
  A panic of the Go runtime ends the process; the model returns it as a value.
\<close>

datatype fault =
  IndexOutOfRange      \<comment> \<open>slice index out of range\<close>
  | NilDereference     \<comment> \<open>field access or method call through a nil pointer\<close>
  | NilConversion      \<comment> \<open>\<open>x.(*ConsumerOffset)\<close> on a nil interface value\<close>
  | MakeNegative       \<comment> \<open>\<open>make\<close> of a slice with a negative length\<close>

subsection \<open>container/ring\<close>

text \<open>
  A \<open>*ring.Ring\<close> points at one element of a circular list. \<open>Ring v vs\<close> is the
  circle seen from that element: \<open>v\<close> is its \<open>Value\<close> (\<open>None\<close> for nil) and
  \<open>vs\<close> are the values of the following elements in \<open>Next\<close> order, so the last of
  \<open>v # vs\<close> is the value of \<open>Prev()\<close>. A nil \<open>*ring.Ring\<close> is \<open>None\<close> of
  \<open>ring option\<close>. The \<open>*ConsumerOffset\<close> in a slot is reachable through the ring
  only, so assigning its fields in place is replacing the slot's value.
\<close>

datatype ring = Ring (ring_Value: "ConsumerOffset option") (ring_rest: "ConsumerOffset option list")

definition ring_New :: "int \<Rightarrow> ring option" where
  "ring_New n = (if n \<le> 0 then None else Some (Ring None (replicate (nat n - 1) None)))"

fun ring_Next :: "ring \<Rightarrow> ring" where
  "ring_Next (Ring v []) = Ring v []"
| "ring_Next (Ring v (x # xs)) = Ring x (xs @ [v])"

fun ring_Prev_Value :: "ring \<Rightarrow> ConsumerOffset option" where
  "ring_Prev_Value (Ring v vs) = last (v # vs)"

fun ring_set_Value :: "ring \<Rightarrow> ConsumerOffset \<Rightarrow> ring" where
  "ring_set_Value (Ring v vs) c = Ring (Some c) vs"

text \<open>The values \<open>Do\<close> visits, in the order it visits them.\<close>

fun ring_Do :: "ring \<Rightarrow> ConsumerOffset option list" where
  "ring_Do (Ring v vs) = v # vs"

subsection \<open>The storage\<close>

text \<open>
  Go maps whose iteration the code relies on (\<open>storage.offsets\<close> in
  \<open>requestClusterList\<close>, a group's topics in \<open>evaluateGroup\<close>) are association lists
  with distinct keys, read with \<open>map_of\<close> and written with \<open>AList.update\<close>; Go leaves
  the iteration order open, the model iterates in list order. The other maps are
  partial functions. A slice is a list; \<open>None\<close> in it is a nil pointer.

  The configuration type (\<open>ApplicationContext\<close>) is declared outside this file; the
  fields the code reads are the parameters \<open>Intervals\<close>, \<open>MinDistance\<close>,
  \<open>ExpireGroup\<close> and the cluster names \<open>Kafka\<close>. A compiled blacklist is the
  predicate \<open>MatchString\<close> computes, \<open>None\<close> when the pattern is not configured.
\<close>

record Config =
  Intervals :: int
  MinDistance :: int64
  ExpireGroup :: int64
  Kafka :: "string list"

record ClusterOffsets =
  broker :: "string \<rightharpoonup> BrokerOffset option list"
  consumer :: "string \<rightharpoonup> (string \<times> ring option list) list"

record OffsetStorage =
  app :: Config
  offsets :: "(string \<times> ClusterOffsets) list"
  groupBlacklist :: "(string \<Rightarrow> bool) option"
  topicBlacklist :: "(string \<Rightarrow> bool) option"

definition NewOffsetStorage ::
  "Config \<Rightarrow> (string \<Rightarrow> bool) option \<Rightarrow> (string \<Rightarrow> bool) option \<Rightarrow> OffsetStorage" where
  "NewOffsetStorage cfg gb tb =
     \<lparr>app = cfg,
      offsets = foldl (\<lambda>m cluster.
                  AList.update cluster \<lparr>broker = Map.empty, consumer = Map.empty\<rparr> m) [] (Kafka cfg),
      groupBlacklist = gb, topicBlacklist = tb\<rparr>"

definition set_cluster :: "OffsetStorage \<Rightarrow> string \<Rightarrow> ClusterOffsets \<Rightarrow> OffsetStorage" where
  "set_cluster storage cluster c = storage\<lparr>offsets := AList.update cluster c (offsets storage)\<rparr>"

section \<open>Broker offset ingest\<close>

text \<open>
  \<open>addBrokerOffset\<close>. The slice stored under \<open>clusterMap.broker[topic]\<close> is made by
  \<open>make([]*BrokerOffset, n)\<close> and is never assigned again, so its capacity is its
  length: the first \<open>append\<close> copies it, and \<open>topicList\<close> is from then on a private
  slice that the function drops on return. The pointers in the copy are the stored
  ones, so assigning the fields of an entry that exists reaches the stored table, while
  a new entry put into the copy does not.
\<close>

definition addBrokerOffset :: "OffsetStorage \<Rightarrow> PartitionOffset \<Rightarrow> fault + OffsetStorage" where
  "addBrokerOffset storage offset =
    (case map_of (offsets storage) (po_Cluster offset) of
       None \<Rightarrow> Inr storage
     | Some clusterMap \<Rightarrow>
        (case broker clusterMap (po_Topic offset) of
           None \<Rightarrow>
             if po_TopicPartitionCount offset < 0 then Inl MakeNegative
             else
               let topicList = replicate (nat (po_TopicPartitionCount offset)) None;
                   i = sint (po_Partition offset)
               in if i < 0 \<or> int (length topicList) \<le> i then Inl IndexOutOfRange
                  else Inr (set_cluster storage (po_Cluster offset)
                         (clusterMap\<lparr>broker := (broker clusterMap)(po_Topic offset \<mapsto>
                            topicList[nat i := Some \<lparr>bo_Offset = po_Offset offset,
                                                    bo_Timestamp = po_Timestamp offset\<rparr>])\<rparr>))
         | Some stored \<Rightarrow>
             let copied = int (length stored) < po_TopicPartitionCount offset;
                 topicList = stored @ replicate (nat (po_TopicPartitionCount offset) - length stored) None;
                 i = sint (po_Partition offset)
             in if i < 0 \<or> int (length topicList) \<le> i then Inl IndexOutOfRange
                else
                  (case topicList ! nat i of
                     None \<Rightarrow>
                       if copied then Inr storage
                       else Inr (set_cluster storage (po_Cluster offset)
                              (clusterMap\<lparr>broker := (broker clusterMap)(po_Topic offset \<mapsto>
                                 stored[nat i := Some \<lparr>bo_Offset = po_Offset offset,
                                                      bo_Timestamp = po_Timestamp offset\<rparr>])\<rparr>))
                   | Some partitionEntry \<Rightarrow>
                       Inr (set_cluster storage (po_Cluster offset)
                         (clusterMap\<lparr>broker := (broker clusterMap)(po_Topic offset \<mapsto>
                            stored[nat i := Some \<lparr>bo_Offset = po_Offset offset,
                                                 bo_Timestamp = po_Timestamp offset\<rparr>])\<rparr>)))))"

section \<open>Consumer offset ingest\<close>

definition blacklisted :: "OffsetStorage \<Rightarrow> PartitionOffset \<Rightarrow> bool" where
  "blacklisted storage offset \<longleftrightarrow>
     (case groupBlacklist storage of None \<Rightarrow> False | Some re \<Rightarrow> re (po_Group offset)) \<or>
     (case topicBlacklist storage of None \<Rightarrow> False | Some re \<Rightarrow> re (po_Topic offset))"

text \<open>The two gates of \<open>addConsumerOffset\<close>, on \<open>lastOffset\<close> and the commit.\<close>

definition timestampDifference :: "ConsumerOffset \<Rightarrow> PartitionOffset \<Rightarrow> int64" where
  "timestampDifference lastOffset offset = po_Timestamp offset - co_Timestamp lastOffset"

definition noadvance :: "ConsumerOffset \<Rightarrow> PartitionOffset \<Rightarrow> bool" where
  "noadvance lastOffset offset \<longleftrightarrow>
     timestampDifference lastOffset offset \<le>s 0 \<and> po_Offset offset \<le>s co_Offset lastOffset"

definition mindistance :: "Config \<Rightarrow> ConsumerOffset \<Rightarrow> PartitionOffset \<Rightarrow> bool" where
  "mindistance cfg lastOffset offset \<longleftrightarrow>
     \<not> co_artificial lastOffset \<and> 0 \<le>s timestampDifference lastOffset offset \<and>
     timestampDifference lastOffset offset <s MinDistance cfg * 1000"

definition commit_entry :: "PartitionOffset \<Rightarrow> int64 \<Rightarrow> ConsumerOffset" where
  "commit_entry offset brokerOffset =
     (let partitionLag = brokerOffset - po_Offset offset
      in \<lparr>co_Offset = po_Offset offset, co_Timestamp = po_Timestamp offset,
          co_Lag = (if partitionLag <s 0 then 0 else partitionLag), co_artificial = False\<rparr>)"

text \<open>
  The part of \<open>addConsumerOffset\<close> under \<open>consumerLock\<close>. \<open>stored\<close> is the slice in
  the group's map (made when the topic is new); as in the broker ingest its capacity is
  its length, so when the loop appends, \<open>consumerTopicMap\<close> is a private copy and
  what is assigned to its slots is lost on return (\<open>copied\<close>). The loop appends only
  when the partition is at or beyond the stored length, where the copy holds nil.
\<close>

definition store_consumer ::
  "OffsetStorage \<Rightarrow> ClusterOffsets \<Rightarrow> PartitionOffset \<Rightarrow> ring option list \<Rightarrow> OffsetStorage" where
  "store_consumer storage clusterOffsets offset v =
     set_cluster storage (po_Cluster offset)
       (clusterOffsets\<lparr>consumer := (consumer clusterOffsets)(po_Group offset \<mapsto>
          AList.update (po_Topic offset) v
            (case consumer clusterOffsets (po_Group offset) of None \<Rightarrow> [] | Some m \<Rightarrow> m))\<rparr>)"

definition addConsumerOffset_locked ::
  "OffsetStorage \<Rightarrow> ClusterOffsets \<Rightarrow> PartitionOffset \<Rightarrow> int64 \<Rightarrow> nat \<Rightarrow> fault + OffsetStorage" where
  "addConsumerOffset_locked storage clusterOffsets offset brokerOffset partitionCount =
    (let p = nat (sint (po_Partition offset));
         consumerMap = (case consumer clusterOffsets (po_Group offset) of None \<Rightarrow> [] | Some m \<Rightarrow> m);
         stored = (case map_of consumerMap (po_Topic offset) of
                     None \<Rightarrow> replicate partitionCount None | Some v \<Rightarrow> v);
         copied = (length stored \<le> p \<and> length stored < partitionCount);
         consumerTopicMap = (if length stored \<le> p
                             then stored @ replicate (partitionCount - length stored) None
                             else stored);
         put = (\<lambda>v. store_consumer storage clusterOffsets offset (if copied then stored else v))
     in if length consumerTopicMap \<le> p then Inl IndexOutOfRange
        else
          (case consumerTopicMap ! p of
             None \<Rightarrow>
               (case ring_New (Intervals (app storage)) of
                  None \<Rightarrow> Inl NilDereference
                | Some consumerPartitionRing \<Rightarrow>
                    Inr (put (consumerTopicMap[p := Some (ring_Next
                           (ring_set_Value consumerPartitionRing (commit_entry offset brokerOffset)))])))
           | Some consumerPartitionRing \<Rightarrow>
               (case ring_Prev_Value consumerPartitionRing of
                  None \<Rightarrow> Inl NilConversion
                | Some lastOffset \<Rightarrow>
                    if noadvance lastOffset offset then Inr (put consumerTopicMap)
                    else if mindistance (app storage) lastOffset offset then Inr (put consumerTopicMap)
                    else Inr (put (consumerTopicMap[p := Some (ring_Next
                           (ring_set_Value consumerPartitionRing (commit_entry offset brokerOffset)))])))))"

definition addConsumerOffset :: "OffsetStorage \<Rightarrow> PartitionOffset \<Rightarrow> fault + OffsetStorage" where
  "addConsumerOffset storage offset =
    (case map_of (offsets storage) (po_Cluster offset) of
       None \<Rightarrow> Inr storage
     | Some clusterOffsets \<Rightarrow>
        if blacklisted storage offset then Inr storage
        else
          (case broker clusterOffsets (po_Topic offset) of
             None \<Rightarrow> Inr storage
           | Some topicPartitionList \<Rightarrow>
               if po_Partition offset <s 0 then Inr storage
               else if (word_of_nat (length topicPartitionList) :: int32) \<le>s po_Partition offset
               then Inr storage
               else if length topicPartitionList \<le> nat (sint (po_Partition offset))
               then Inl IndexOutOfRange
               else
                 (case topicPartitionList ! nat (sint (po_Partition offset)) of
                    None \<Rightarrow> Inr storage
                  | Some b \<Rightarrow>
                      addConsumerOffset_locked storage clusterOffsets offset
                        (bo_Offset b) (length topicPartitionList))))"

section \<open>Group drop\<close>

text \<open>
  \<open>dropGroup\<close> reads \<open>storage.offsets[cluster].consumerLock\<close> first: for a cluster
  that is not a key the map yields a nil \<open>*ClusterOffsets\<close>.
\<close>

definition dropGroup ::
  "OffsetStorage \<Rightarrow> string \<Rightarrow> string \<Rightarrow> fault + (OffsetStorage \<times> StatusConstant)" where
  "dropGroup storage cluster grp =
    (case map_of (offsets storage) cluster of
       None \<Rightarrow> Inl NilDereference
     | Some c \<Rightarrow>
        (case consumer c grp of
           Some m \<Rightarrow> Inr (set_cluster storage cluster
                           (c\<lparr>consumer := (consumer c)(grp := None)\<rparr>), StatusOK)
         | None \<Rightarrow> Inr (storage, StatusNotFound)))"

section \<open>Requests and their dispatch\<close>

text \<open>
  The values sent on \<open>requestChannel\<close> (an \<open>interface{}\<close> channel): the six request
  structs of the file, without their result channels, and any other value. A handler
  replies on the result channel of the request it is started for; \<open>handler_call\<close>
  names the goroutine the \<open>switch\<close> of the actor starts, \<open>None\<close> is its
  \<open>default\<close> branch, which starts none.
\<close>

datatype request =
  RequestClusterList
  | RequestConsumerList string
  | RequestTopicList string string
  | RequestOffsets string string string
  | RequestConsumerStatus string string bool
  | RequestConsumerDrop string string
  | OtherValue

datatype handler_call =
  Call_requestClusterList
  | Call_requestConsumerList string
  | Call_requestTopicList string string
  | Call_requestOffsets string string string
  | Call_evaluateGroup string string bool
  | Call_dropGroup string string

fun request_switch :: "request \<Rightarrow> handler_call option" where
  "request_switch (RequestConsumerList cluster) = Some (Call_requestConsumerList cluster)"
| "request_switch (RequestTopicList cluster grp) = Some (Call_requestTopicList cluster grp)"
| "request_switch (RequestOffsets cluster topic grp) = Some (Call_requestOffsets cluster topic grp)"
| "request_switch (RequestConsumerStatus cluster grp showall) =
     Some (Call_evaluateGroup cluster grp showall)"
| "request_switch (RequestConsumerDrop cluster grp) = Some (Call_dropGroup cluster grp)"
| "request_switch _ = None"

definition requestClusterList :: "OffsetStorage \<Rightarrow> string list" where
  "requestClusterList storage = map fst (offsets storage)"

section \<open>Group evaluation\<close>

text \<open>
  \<open>Partitions\<close> and \<open>Maxlag\<close> of a \<open>ConsumerGroupStatus\<close> hold
  \<open>*PartitionStatus\<close>, and \<open>evaluateGroup\<close> assigns \<open>thispart.Status\<close> after it
  has appended \<open>thispart\<close>: the pointers are addresses into a store of the
  \<open>PartitionStatus\<close> values allocated by the call (a list, the address is the index),
  and a reply is the status together with that store.
\<close>

record PartitionStatus =
  ps_Topic :: string
  ps_Partition :: int32
  ps_Status :: StatusConstant
  ps_Start :: ConsumerOffset
  ps_End :: ConsumerOffset

record ConsumerGroupStatus =
  gs_Cluster :: string
  gs_Group :: string
  gs_Status :: StatusConstant
  gs_Complete :: bool
  gs_Partitions :: "nat list"
  gs_TotalPartitions :: int
  gs_Maxlag :: "nat option"
  gs_TotalLag :: int64

type_synonym reply = "ConsumerGroupStatus \<times> PartitionStatus list"

text \<open>What the receiver of a reply reads through the pointers of \<open>Partitions\<close>.\<close>

definition reply_Partitions :: "reply \<Rightarrow> PartitionStatus list" where
  "reply_Partitions r = map (\<lambda>a. snd r ! a) (gs_Partitions (fst r))"

subsection \<open>The scan of the offsets table\<close>

text \<open>
  \<open>time.Now().Unix()\<close> is the parameter \<open>now\<close>, one value for all the reads of the
  clock in a call. \<open>copy_ring\<close> is the closure handed to \<open>Do\<close>: \<open>idx\<close> is the slot of
  \<open>partitionMap\<close> it writes next.
\<close>

definition zero_ConsumerOffset :: ConsumerOffset where
  "zero_ConsumerOffset = \<lparr>co_Offset = 0, co_Timestamp = 0, co_Lag = 0, co_artificial = False\<rparr>"

fun copy_ring ::
  "nat \<Rightarrow> ConsumerOffset option list \<Rightarrow> ConsumerOffset list \<times> int64
    \<Rightarrow> fault + (ConsumerOffset list \<times> int64)" where
  "copy_ring idx [] (partitionMap, youngestOffset) = Inr (partitionMap, youngestOffset)"
| "copy_ring idx (val # vals) (partitionMap, youngestOffset) =
     (case val of
        None \<Rightarrow> Inl NilDereference
      | Some c \<Rightarrow>
          if length partitionMap \<le> idx then Inl IndexOutOfRange
          else copy_ring (Suc idx) vals
                 (partitionMap[idx := c],
                  if youngestOffset <s co_Timestamp c then co_Timestamp c else youngestOffset))"

definition artificial_entry :: "int64 \<Rightarrow> ConsumerOffset \<Rightarrow> ConsumerOffset" where
  "artificial_entry now lastOffset =
     \<lparr>co_Offset = co_Offset lastOffset, co_Timestamp = now * 1000, co_Lag = 0,
      co_artificial = True\<rparr>"

text \<open>
  One turn of the inner loop of the scan: the ring as it is left in
  \<open>partitions[partition]\<close>, the slice put into \<open>offsetList[topic][partition]\<close> (empty
  when the partition is skipped) and the counters \<open>TotalPartitions\<close>, \<open>Complete\<close>,
  \<open>youngestOffset\<close>.
\<close>

definition scan_partition ::
  "Config \<Rightarrow> int64 \<Rightarrow> BrokerOffset option list option \<Rightarrow> nat \<Rightarrow> ring option
    \<Rightarrow> int \<times> bool \<times> int64
    \<Rightarrow> fault + (ring option \<times> ConsumerOffset list \<times> int \<times> bool \<times> int64)" where
  "scan_partition cfg now brokerTopic partn offsetRing acc =
    (case acc of (totalPartitions, complete, youngestOffset) \<Rightarrow>
      (case offsetRing of
         None \<Rightarrow> Inr (None, [], totalPartitions + 1, False, youngestOffset)
       | Some r \<Rightarrow>
          if ring_Value r = None then Inr (Some r, [], totalPartitions + 1, False, youngestOffset)
          else
            (case ring_Prev_Value r of
               None \<Rightarrow> Inl NilConversion
             | Some lastOffset \<Rightarrow>
                (case brokerTopic of
                   None \<Rightarrow> Inl IndexOutOfRange
                 | Some bl \<Rightarrow>
                    if length bl \<le> partn then Inl IndexOutOfRange
                    else
                      (case bl ! partn of
                         None \<Rightarrow> Inl NilDereference
                       | Some b \<Rightarrow>
                          let r' = (if bo_Offset b \<le>s co_Offset lastOffset
                                    then ring_Next (ring_set_Value r (artificial_entry now lastOffset))
                                    else r)
                          in if Intervals cfg < 0 then Inl MakeNegative
                             else
                               (case copy_ring 0 (ring_Do r')
                                       (replicate (nat (Intervals cfg)) zero_ConsumerOffset,
                                        youngestOffset) of
                                  Inl f \<Rightarrow> Inl f
                                | Inr (partitionMap, youngestOffset') \<Rightarrow>
                                    Inr (Some r', partitionMap, totalPartitions + 1, complete,
                                         youngestOffset')))))))"

fun scan_partitions ::
  "Config \<Rightarrow> int64 \<Rightarrow> BrokerOffset option list option \<Rightarrow> nat \<Rightarrow> ring option list
    \<Rightarrow> int \<times> bool \<times> int64
    \<Rightarrow> fault + (ring option list \<times> ConsumerOffset list list \<times> int \<times> bool \<times> int64)" where
  "scan_partitions cfg now brokerTopic partn [] acc = Inr ([], [], acc)"
| "scan_partitions cfg now brokerTopic partn (offsetRing # rest) acc =
     (case scan_partition cfg now brokerTopic partn offsetRing acc of
        Inl f \<Rightarrow> Inl f
      | Inr (r', snap, acc') \<Rightarrow>
         (case scan_partitions cfg now brokerTopic (Suc partn) rest acc' of
            Inl f \<Rightarrow> Inl f
          | Inr (rs', snaps, acc'') \<Rightarrow> Inr (r' # rs', snap # snaps, acc'')))"

fun scan_topics ::
  "Config \<Rightarrow> int64 \<Rightarrow> (string \<rightharpoonup> BrokerOffset option list)
    \<Rightarrow> (string \<times> ring option list) list \<Rightarrow> int \<times> bool \<times> int64
    \<Rightarrow> fault + ((string \<times> ring option list) list \<times> (string \<times> ConsumerOffset list list) list
                 \<times> int \<times> bool \<times> int64)" where
  "scan_topics cfg now brokerMap [] acc = Inr ([], [], acc)"
| "scan_topics cfg now brokerMap ((topic, partitions) # rest) acc =
     (case scan_partitions cfg now (brokerMap topic) 0 partitions acc of
        Inl f \<Rightarrow> Inl f
      | Inr (partitions', snaps, acc') \<Rightarrow>
         (case scan_topics cfg now brokerMap rest acc' of
            Inl f \<Rightarrow> Inl f
          | Inr (rest', offsetList, acc'') \<Rightarrow>
              Inr ((topic, partitions') # rest', (topic, snaps) # offsetList, acc'')))"

subsection \<open>The rules\<close>

text \<open>
  The state of the second loop: the status being built, \<open>maxlag\<close>, and the store of
  the \<open>PartitionStatus\<close> values allocated so far.
\<close>

type_synonym rules_state = "ConsumerGroupStatus \<times> int64 \<times> PartitionStatus list"

definition append_part :: "nat \<Rightarrow> ConsumerGroupStatus \<Rightarrow> ConsumerGroupStatus" where
  "append_part thispart status = status\<lparr>gs_Partitions := gs_Partitions status @ [thispart]\<rparr>"

definition set_part_Status :: "nat \<Rightarrow> StatusConstant \<Rightarrow> PartitionStatus list \<Rightarrow> PartitionStatus list" where
  "set_part_Status thispart s heap = heap[thispart := (heap ! thispart)\<lparr>ps_Status := s\<rparr>]"

text \<open>
  Rule 6, the loop \<open>for i := 1; i <= maxidx; i++\<close>: its \<open>continue\<close> is the
  \<open>continue\<close> of this loop, so every \<open>i\<close> is visited and the code after the loop
  runs.
\<close>

definition rule6_loop ::
  "ConsumerOffset list \<Rightarrow> nat \<Rightarrow> nat \<Rightarrow> ConsumerGroupStatus \<times> PartitionStatus list
    \<Rightarrow> ConsumerGroupStatus \<times> PartitionStatus list" where
  "rule6_loop offs maxidx thispart sh =
     foldl (\<lambda>(status, heap) i.
              if co_Offset (offs ! i) <s co_Offset (offs ! (i - 1))
              then (append_part thispart (status\<lparr>gs_Status := StatusError\<rparr>),
                    set_part_Status thispart StatusRewind heap)
              else (status, heap))
       sh [1..<Suc maxidx]"

definition lagDropped :: "ConsumerOffset list \<Rightarrow> nat \<Rightarrow> bool" where
  "lagDropped offs maxidx \<longleftrightarrow>
     list_ex (\<lambda>i. co_Lag (offs ! i) = 0 \<or> (0 < i \<and> co_Lag (offs ! i) <s co_Lag (offs ! (i - 1))))
       [0..<Suc maxidx]"

text \<open>The code after Rule 6, for one partition.\<close>

definition rules_123 ::
  "bool \<Rightarrow> ConsumerOffset list \<Rightarrow> nat \<Rightarrow> ConsumerGroupStatus \<times> PartitionStatus list
    \<Rightarrow> ConsumerGroupStatus \<times> PartitionStatus list" where
  "rules_123 showall offs thispart sh =
    (case sh of (status, heap) \<Rightarrow>
      (let maxidx = length offs - 1; firstOffset = offs ! 0; lastOffset = offs ! maxidx;
           ok = (if showall then append_part thispart status else status, heap);
           final = (\<lambda>(status, heap).
                      (if ps_Status (heap ! thispart) \<noteq> StatusOK \<or> showall
                       then append_part thispart status else status, heap))
       in if co_Lag lastOffset = 0 then ok
          else if co_Offset lastOffset = co_Offset firstOffset then
            (if co_Lag firstOffset = 0 then ok
             else final (status\<lparr>gs_Status := StatusError\<rparr>,
                         set_part_Status thispart StatusStall heap))
          else if co_Lag firstOffset = 0 \<or> co_Lag lastOffset \<le>s co_Lag firstOffset then ok
          else if \<not> lagDropped offs maxidx then
            final (if gs_Status status = StatusOK then status\<lparr>gs_Status := StatusWarning\<rparr>
                   else status,
                   set_part_Status thispart StatusWarning heap)
          else final (status, heap)))"

text \<open>One turn of the inner loop over \<open>offsetList\<close>.\<close>

definition evaluate_partition ::
  "int64 \<Rightarrow> bool \<Rightarrow> string \<Rightarrow> nat \<Rightarrow> ConsumerOffset list \<Rightarrow> rules_state \<Rightarrow> rules_state" where
  "evaluate_partition now showall topic partn offs st =
    (case st of (status, maxlag, heap) \<Rightarrow>
      if length offs = 0 then (status, maxlag, heap)
      else
        (let maxidx = length offs - 1; firstOffset = offs ! 0; lastOffset = offs ! maxidx
         in if co_Lag firstOffset = - 1 then (status\<lparr>gs_Complete := False\<rparr>, maxlag, heap)
            else
              (let thispart = length heap;
                   heap1 = heap @ [\<lparr>ps_Topic = topic, ps_Partition = word_of_nat partn,
                                    ps_Status = StatusOK, ps_Start = firstOffset,
                                    ps_End = lastOffset\<rparr>];
                   status1 = (if maxlag <s co_Lag lastOffset
                              then status\<lparr>gs_Maxlag := Some thispart\<rparr> else status);
                   maxlag1 = (if maxlag <s co_Lag lastOffset then co_Lag lastOffset else maxlag);
                   status2 = status1\<lparr>gs_TotalLag := gs_TotalLag status1 + co_Lag lastOffset\<rparr>
               in if co_Timestamp lastOffset - co_Timestamp firstOffset
                       <s now * 1000 - co_Timestamp lastOffset
                  then (append_part thispart (status2\<lparr>gs_Status := StatusError\<rparr>), maxlag1,
                        set_part_Status thispart StatusStop heap1)
                  else
                    (case rules_123 showall offs thispart
                            (rule6_loop offs maxidx thispart (status2, heap1)) of
                       (status3, heap3) \<Rightarrow> (status3, maxlag1, heap3)))))"

fun evaluate_partitions ::
  "int64 \<Rightarrow> bool \<Rightarrow> string \<Rightarrow> nat \<Rightarrow> ConsumerOffset list list \<Rightarrow> rules_state \<Rightarrow> rules_state" where
  "evaluate_partitions now showall topic partn [] st = st"
| "evaluate_partitions now showall topic partn (offs # rest) st =
     evaluate_partitions now showall topic (Suc partn) rest
       (evaluate_partition now showall topic partn offs st)"

fun evaluate_topics ::
  "int64 \<Rightarrow> bool \<Rightarrow> (string \<times> ConsumerOffset list list) list \<Rightarrow> rules_state \<Rightarrow> rules_state" where
  "evaluate_topics now showall [] st = st"
| "evaluate_topics now showall ((topic, partitions) # rest) st =
     evaluate_topics now showall rest (evaluate_partitions now showall topic 0 partitions st)"

definition evaluateGroup ::
  "int64 \<Rightarrow> OffsetStorage \<Rightarrow> string \<Rightarrow> string \<Rightarrow> bool \<Rightarrow> fault + (OffsetStorage \<times> reply)" where
  "evaluateGroup now storage cluster grp showall =
    (let status = \<lparr>gs_Cluster = cluster, gs_Group = grp, gs_Status = StatusNotFound,
                   gs_Complete = True, gs_Partitions = [], gs_TotalPartitions = 0,
                   gs_Maxlag = None, gs_TotalLag = 0\<rparr>
     in case map_of (offsets storage) cluster of
          None \<Rightarrow> Inr (storage, status, [])
        | Some clusterMap \<Rightarrow>
           (case consumer clusterMap grp of
              None \<Rightarrow> Inr (storage, status, [])
            | Some consumerMap \<Rightarrow>
               (case scan_topics (app storage) now (broker clusterMap) consumerMap (0, True, 0) of
                  Inl f \<Rightarrow> Inl f
                | Inr (consumerMap', offsetList, totalPartitions, complete, youngestOffset) \<Rightarrow>
                   let scanned = status\<lparr>gs_Status := StatusOK, gs_Complete := complete,
                                        gs_TotalPartitions := totalPartitions\<rparr>
                   in if 0 <s youngestOffset \<and>
                         youngestOffset <s (now - ExpireGroup (app storage)) * 1000
                      then Inr (set_cluster storage cluster
                                  (clusterMap\<lparr>consumer := (consumer clusterMap)(grp := None)\<rparr>),
                                scanned\<lparr>gs_Status := StatusNotFound\<rparr>, [])
                      else
                        (case evaluate_topics now showall offsetList (scanned, 0, []) of
                           (status', maxlag, heap) \<Rightarrow>
                             Inr (set_cluster storage cluster
                                    (clusterMap\<lparr>consumer := (consumer clusterMap)(grp \<mapsto> consumerMap')\<rparr>),
                                  status', heap)))))"

section \<open>The storage actor\<close>

text \<open>
  What arrives on the two channels: a \<open>PartitionOffset\<close>, or a request together with
  the reading of the clock its handler sees. \<open>actor_step\<close> is one turn of the
  \<open>select\<close> loop with the handler it starts run to its end before the next turn; the
  handlers that only read the tables (\<open>requestConsumerList\<close>, \<open>requestTopicList\<close>,
  \<open>requestOffsets\<close>, \<open>requestClusterList\<close>) leave the storage as it is. A panic in
  a handler ends the process, so a run stops at the first fault.
\<close>

datatype event = OffsetEvent PartitionOffset | RequestEvent int64 request

definition actor_step :: "OffsetStorage \<Rightarrow> event \<Rightarrow> fault + OffsetStorage" where
  "actor_step storage ev =
    (case ev of
       OffsetEvent o' \<Rightarrow>
         if po_Group o' = [] then addBrokerOffset storage o' else addConsumerOffset storage o'
     | RequestEvent now r \<Rightarrow>
        (case request_switch r of
           Some (Call_evaluateGroup cluster grp showall) \<Rightarrow>
             (case evaluateGroup now storage cluster grp showall of
                Inl f \<Rightarrow> Inl f | Inr (storage', reply) \<Rightarrow> Inr storage')
         | Some (Call_dropGroup cluster grp) \<Rightarrow>
             (case dropGroup storage cluster grp of
                Inl f \<Rightarrow> Inl f | Inr (storage', reply) \<Rightarrow> Inr storage')
         | _ \<Rightarrow> Inr storage))"

fun run :: "OffsetStorage \<Rightarrow> event list \<Rightarrow> fault + OffsetStorage" where
  "run storage [] = Inr storage"
| "run storage (ev # evs) =
     (case actor_step storage ev of Inl f \<Rightarrow> Inl f | Inr storage' \<Rightarrow> run storage' evs)"

inductive reachable ::
  "Config \<Rightarrow> (string \<Rightarrow> bool) option \<Rightarrow> (string \<Rightarrow> bool) option \<Rightarrow> OffsetStorage \<Rightarrow> bool"
  for cfg gb tb where
  reachable_init: "reachable cfg gb tb (NewOffsetStorage cfg gb tb)"
| reachable_step:
    "reachable cfg gb tb storage \<Longrightarrow> actor_step storage ev = Inr storage'
      \<Longrightarrow> reachable cfg gb tb storage'"

subsection \<open>Reading the tables\<close>

definition broker_vector ::
  "OffsetStorage \<Rightarrow> string \<Rightarrow> string \<Rightarrow> BrokerOffset option list option" where
  "broker_vector storage cluster topic =
    (case map_of (offsets storage) cluster of None \<Rightarrow> None | Some c \<Rightarrow> broker c topic)"

definition ring_at :: "OffsetStorage \<Rightarrow> string \<Rightarrow> string \<Rightarrow> string \<Rightarrow> nat \<Rightarrow> ring option" where
  "ring_at storage cluster grp topic p =
    (case map_of (offsets storage) cluster of
       None \<Rightarrow> None
     | Some c \<Rightarrow>
        (case consumer c grp of
           None \<Rightarrow> None
         | Some m \<Rightarrow>
            (case map_of m topic of
               None \<Rightarrow> None
             | Some v \<Rightarrow> if p < length v then v ! p else None)))"

subsection \<open>Scenarios\<close>

definition config5 :: Config where
  "config5 = \<lparr>Intervals = 5, MinDistance = 0, ExpireGroup = 604800, Kafka = [''local'']\<rparr>"

definition config3 :: Config where
  "config3 = \<lparr>Intervals = 3, MinDistance = 0, ExpireGroup = 604800, Kafka = [''local'']\<rparr>"

definition broker_obs :: "nat \<Rightarrow> int64 \<Rightarrow> int64 \<Rightarrow> int \<Rightarrow> PartitionOffset" where
  "broker_obs p off ts n =
     \<lparr>po_Cluster = ''local'', po_Topic = ''T'', po_Partition = word_of_nat p, po_Offset = off,
      po_Timestamp = ts, po_Group = [], po_TopicPartitionCount = n\<rparr>"

definition commit :: "int64 \<Rightarrow> int64 \<Rightarrow> PartitionOffset" where
  "commit off ts =
     \<lparr>po_Cluster = ''local'', po_Topic = ''T'', po_Partition = 0, po_Offset = off,
      po_Timestamp = ts, po_Group = ''G'', po_TopicPartitionCount = 0\<rparr>"

text \<open>The reply of \<open>evaluateGroup\<close> for group G after a run, and after a second call.\<close>

definition evaluate_after ::
  "Config \<Rightarrow> event list \<Rightarrow> int64 \<Rightarrow> bool \<Rightarrow> fault + (OffsetStorage \<times> reply)" where
  "evaluate_after cfg evs now showall =
    (case run (NewOffsetStorage cfg None None) evs of
       Inl f \<Rightarrow> Inl f
     | Inr storage \<Rightarrow> evaluateGroup now storage ''local'' ''G'' showall)"

definition evaluate_twice_after ::
  "Config \<Rightarrow> event list \<Rightarrow> int64 \<Rightarrow> bool \<Rightarrow> fault + (OffsetStorage \<times> reply)" where
  "evaluate_twice_after cfg evs now showall =
    (case evaluate_after cfg evs now showall of
       Inl f \<Rightarrow> Inl f
     | Inr (storage, r) \<Rightarrow> evaluateGroup now storage ''local'' ''G'' showall)"

definition reply_of :: "fault + (OffsetStorage \<times> reply) \<Rightarrow> fault + reply" where
  "reply_of res = (case res of Inl f \<Rightarrow> Inl f | Inr (storage, r) \<Rightarrow> Inr r)"

definition healthy_catch_up :: "event list" where
  "healthy_catch_up = [OffsetEvent (broker_obs 0 100 1000 1), OffsetEvent (commit 100 1100)]"

definition rewind_then_stall :: "event list" where
  "rewind_then_stall =
     [OffsetEvent (broker_obs 0 1000 1000 1), OffsetEvent (commit 100 4000),
      OffsetEvent (commit 50 7000), OffsetEvent (commit 100 10000)]"

definition partition_growth :: "event list" where
  "partition_growth =
     [OffsetEvent (broker_obs 0 100 1000 1), OffsetEvent (broker_obs 1 200 2000 2)]"

definition wrapped_commit :: "event list" where
  "wrapped_commit =
     [OffsetEvent (broker_obs 0 100 1000 1), OffsetEvent (commit 100 1100),
      OffsetEvent (commit 100 (- 9223372036854775808))]"


definition steady_caught_up :: "event list" where
  "steady_caught_up =
     [OffsetEvent (broker_obs 0 100 500 1), OffsetEvent (commit 100 1000),
      OffsetEvent (commit 100 2000), OffsetEvent (commit 100 3000)]"

definition config_rate :: Config where
  "config_rate = \<lparr>Intervals = 2, MinDistance = 10, ExpireGroup = 604800, Kafka = [''local'']\<rparr>"

definition two_commits :: "event list" where
  "two_commits =
     [OffsetEvent (broker_obs 0 100 500 1), OffsetEvent (commit 100 1000),
      OffsetEvent (commit 100 20000)]"

definition two_commits_evaluated :: "event list" where
  "two_commits_evaluated =
     two_commits @ [RequestEvent 21 (RequestConsumerStatus ''local'' ''G'' True)]"

text \<open>The storage a run leaves.\<close>

definition storage_after :: "Config \<Rightarrow> event list \<Rightarrow> OffsetStorage" where
  "storage_after cfg evs = projr (run (NewOffsetStorage cfg None None) evs)"

subsection \<open>Predicates on rings and on the storage\<close>

text \<open>
  \<open>ring_Do r\<close> lists a ring from the element the stored pointer is at, which is the
  slot written next: the entries come oldest first, and the entry written last is the
  last of the list. Two entries are successive when they are neighbours in this list.
  \<open>advanced a b\<close> is what the no-advance gate leaves true of \<open>lastOffset = a\<close> and an
  accepted commit \<open>b\<close>, with the difference of the timestamps as Go computes it.
\<close>

definition advanced :: "ConsumerOffset \<Rightarrow> ConsumerOffset \<Rightarrow> bool" where
  "advanced a b \<longleftrightarrow> 0 <s co_Timestamp b - co_Timestamp a \<or> co_Offset a <s co_Offset b"

definition slot_advanced :: "ConsumerOffset option \<Rightarrow> ConsumerOffset option \<Rightarrow> bool" where
  "slot_advanced x y \<longleftrightarrow>
     (case (x, y) of (Some a, Some b) \<Rightarrow> co_artificial b \<or> advanced a b | _ \<Rightarrow> True)"

text \<open>
  A ring of \<open>n\<close> slots whose unwritten slots, if any, come first, with at least one
  written slot, whose successive entries satisfy \<open>slot_advanced\<close> and whose entries
  have a lag that is not negative.
\<close>

definition ring_ok :: "int \<Rightarrow> ring \<Rightarrow> bool" where
  "ring_ok n r \<longleftrightarrow>
     int (length (ring_Do r)) = n \<and>
     (\<exists>k xs. ring_Do r = replicate k None @ map Some xs \<and> xs \<noteq> []) \<and>
     successively slot_advanced (ring_Do r) \<and>
     (\<forall>c. Some c \<in> set (ring_Do r) \<longrightarrow> 0 \<le>s co_Lag c)"

text \<open>
  The invariant of the storage, by layer: every ring in a stored partition vector is
  \<open>ring_ok\<close> and has a broker offset at its topic and partition.
\<close>

definition vec_inv :: "Config \<Rightarrow> BrokerOffset option list option \<Rightarrow> ring option list \<Rightarrow> bool" where
  "vec_inv cfg brokerTopic v \<longleftrightarrow>
     (\<forall>p r. p < length v \<longrightarrow> v ! p = Some r \<longrightarrow>
        ring_ok (Intervals cfg) r \<and>
        (\<exists>bl b. brokerTopic = Some bl \<and> p < length bl \<and> bl ! p = Some b))"

definition group_inv ::
  "Config \<Rightarrow> (string \<rightharpoonup> BrokerOffset option list) \<Rightarrow> (string \<times> ring option list) list \<Rightarrow> bool" where
  "group_inv cfg brokerMap m \<longleftrightarrow> (\<forall>topic v. (topic, v) \<in> set m \<longrightarrow> vec_inv cfg (brokerMap topic) v)"

definition cluster_inv :: "Config \<Rightarrow> ClusterOffsets \<Rightarrow> bool" where
  "cluster_inv cfg c \<longleftrightarrow> (\<forall>grp m. consumer c grp = Some m \<longrightarrow> group_inv cfg (broker c) m)"

definition storage_inv :: "Config \<Rightarrow> OffsetStorage \<Rightarrow> bool" where
  "storage_inv cfg storage \<longleftrightarrow>
     app storage = cfg \<and>
     (\<forall>cluster c. map_of (offsets storage) cluster = Some c \<longrightarrow> cluster_inv cfg c)"



subsection \<open>Two evaluations in a row\<close>









text \<open>What the receiver of a reply reads through the pointer \<open>Maxlag\<close>.\<close>

definition reply_Maxlag :: "reply \<Rightarrow> PartitionStatus option" where
  "reply_Maxlag r = map_option (\<lambda>a. snd r ! a) (gs_Maxlag (fst r))"

section \<open>Properties\<close>

subsection \<open>Scenario 1 and the partitions the scan skips\<close>

lemma healthy_catch_up_ring:
  "(case run (NewOffsetStorage config5 None None) healthy_catch_up of
      Inl f \<Rightarrow> None | Inr storage \<Rightarrow> ring_at storage ''local'' ''G'' ''T'' 0) =
     Some (Ring None [None, None, None,
       Some \<lparr>co_Offset = 100, co_Timestamp = 1100, co_Lag = 0, co_artificial = False\<rparr>])"
  by code_simp

text \<open>
  C1, as stated: in scenario 1 the reply would hold one partition entry with status OK
  and end lag 0. It holds none: after the single commit the pointer of the ring is at
  an unwritten slot (\<open>healthy_catch_up_ring\<close>), and the scan skips the partition.
\<close>

theorem C1_counterexample:
  "\<not> (case reply_of (evaluate_after config5 healthy_catch_up 2 True) of
        Inl f \<Rightarrow> False
      | Inr r \<Rightarrow> gs_Status (fst r) = StatusOK \<and> \<not> gs_Complete (fst r) \<and>
          (case reply_Partitions r of
             [p] \<Rightarrow> ps_Status p = StatusOK \<and> co_Lag (ps_End p) = 0
           | _ \<Rightarrow> False))"
  by code_simp

subsection \<open>Rule 6\<close>

text \<open>
  C2 at a failing input: three commits that fill a ring of three slots, the second
  below the first (a rewind), the third back at the first offset, against a broker
  offset of 1000; the evaluation at second 10 is not stopped by Rule 4. Rule 6 appends
  the partition, Rule 2 then runs, sets the same \<open>PartitionStatus\<close> to STALL and
  the partition is appended again: the reply lists the partition twice, as STALL.
\<close>

theorem C2_rewind_then_stall:
  "reply_of (evaluate_after config3 rewind_then_stall 10 False) =
     Inr (\<lparr>gs_Cluster = ''local'', gs_Group = ''G'', gs_Status = StatusError, gs_Complete = True,
           gs_Partitions = [0, 0], gs_TotalPartitions = 1, gs_Maxlag = Some 0, gs_TotalLag = 900\<rparr>,
          [\<lparr>ps_Topic = ''T'', ps_Partition = 0, ps_Status = StatusStall,
            ps_Start = \<lparr>co_Offset = 100, co_Timestamp = 4000, co_Lag = 900, co_artificial = False\<rparr>,
            ps_End = \<lparr>co_Offset = 100, co_Timestamp = 10000, co_Lag = 900, co_artificial = False\<rparr>\<rparr>])"
  by code_simp

subsection \<open>Dispatch of the cluster list request\<close>

text \<open>
  C3 at a failing input: the \<open>switch\<close> of the actor has no case for
  \<open>*RequestClusterList\<close>, so the request takes the \<open>default\<close> branch, no handler is
  started and the storage is as before; \<open>requestClusterList\<close>, which would reply with
  the cluster names, is never called.
\<close>

theorem C3_cluster_list_request_dropped:
  "request_switch RequestClusterList = None \<and>
   actor_step (NewOffsetStorage config5 None None) (RequestEvent 0 RequestClusterList)
     = Inr (NewOffsetStorage config5 None None) \<and>
   requestClusterList (NewOffsetStorage config5 None None) = [''local'']"
  by (simp add: actor_step_def requestClusterList_def NewOffsetStorage_def config5_def)

subsection \<open>Growth of the broker vector\<close>

lemma addBrokerOffset_length_fixed:
  assumes step: "addBrokerOffset storage offset = Inr storage'"
      and v: "broker_vector storage cluster topic = Some v"
  shows "\<exists>v'. broker_vector storage' cluster topic = Some v' \<and> length v' = length v"
proof (cases "map_of (offsets storage) (po_Cluster offset)")
  case None
  with step v show ?thesis by (simp add: addBrokerOffset_def)
next
  case (Some c)
  show ?thesis
  proof (cases "broker c (po_Topic offset)")
    case None
    with step Some v show ?thesis
      by (auto simp: addBrokerOffset_def Let_def broker_vector_def set_cluster_def
            AList.update_conv' split: if_splits)
  next
    case stored: (Some stored)
    with step Some v show ?thesis
      by (auto simp: addBrokerOffset_def Let_def broker_vector_def set_cluster_def
            AList.update_conv' split: if_splits option.splits)
  qed
qed

text \<open>
  C4 at a failing input: a first observation of topic T with one partition, then an
  observation of partition 1 with a partition count of 2. The stored vector still has
  length 1 and the second observation is nowhere in it. No broker observation changes
  the length of a stored vector (\<open>addBrokerOffset_length_fixed\<close>).
\<close>

theorem C4_stored_vector_not_grown:
  "(case run (NewOffsetStorage config5 None None) partition_growth of
      Inl f \<Rightarrow> None | Inr storage \<Rightarrow> broker_vector storage ''local'' ''T'')
     = Some [Some \<lparr>bo_Offset = 100, bo_Timestamp = 1000\<rparr>]"
  by code_simp

subsection \<open>Group drop on a cluster that is not configured\<close>

lemma dropGroup_configured:
  assumes "map_of (offsets storage) cluster = Some c"
  shows "dropGroup storage cluster grp =
           Inr (case consumer c grp of
                  Some m \<Rightarrow> (set_cluster storage cluster
                               (c\<lparr>consumer := (consumer c)(grp := None)\<rparr>), StatusOK)
                | None \<Rightarrow> (storage, StatusNotFound))"
  using assms by (simp add: dropGroup_def split: option.splits)

text \<open>
  C5 at a failing input: a drop request for a cluster that is not configured
  dereferences the nil \<open>*ClusterOffsets\<close> and panics; nothing is replied. For a
  configured cluster the handler deletes a group that is there and replies OK, and
  replies NOTFOUND otherwise (\<open>dropGroup_configured\<close>).
\<close>

theorem C5_drop_unknown_cluster_faults:
  "dropGroup (NewOffsetStorage config5 None None) ''other'' ''G'' = Inl NilDereference"
  by (simp add: dropGroup_def NewOffsetStorage_def config5_def)

subsection \<open>Broker ingest with a partition outside the vector\<close>

text \<open>
  C9 at a failing input: a broker observation of partition 1 of a new topic with a
  partition count of 1 indexes the vector of length 1 at 1 and panics.
\<close>

theorem C9_partition_out_of_range_faults:
  "addBrokerOffset (NewOffsetStorage config5 None None) (broker_obs 1 100 1000 1)
     = Inl IndexOutOfRange"
  by (simp add: addBrokerOffset_def NewOffsetStorage_def config5_def broker_obs_def)

subsection \<open>The rate limit of the consumer ingest\<close>

lemma sint_word_of_nat_le: "sint (word_of_nat n :: 'a::len word) \<le> int n"
proof -
  have "- (2 ^ (LENGTH('a) - Suc 0)) \<le> (0::int)" by simp
  also have "\<dots> \<le> int n" by simp
  finally have "signed_take_bit (LENGTH('a) - Suc 0) (int n) \<le> int n"
    by (simp only: signed_take_bit_int_less_eq_self_iff)
  then show ?thesis by (simp add: signed_of_nat)
qed

lemma partition_in_range:
  assumes "\<not> p <s 0" and "\<not> (word_of_nat n :: int32) \<le>s p"
  shows "nat (sint p) < n"
proof -
  have "0 \<le> sint p" using assms(1) by (simp add: word_sless_alt)
  moreover have "sint p < sint (word_of_nat n :: int32)" using assms(2) by (simp add: word_sle_eq)
  ultimately show ?thesis using sint_word_of_nat_le [of n, where 'a = 32] by linarith
qed

lemma ring_Do_write: "ring_Do (ring_Next (ring_set_Value r e)) = tl (ring_Do r) @ [Some e]"
  by (cases r; cases "ring_rest r") auto

lemma store_consumer_same:
  assumes "map_of (offsets storage) (po_Cluster offset) = Some c"
      and "consumer c (po_Group offset) = Some m"
      and "map_of m (po_Topic offset) = Some v"
  shows "store_consumer storage c offset v = storage"
  using assms
  by (simp add: store_consumer_def set_cluster_def AList.update_triv map_upd_triv)

lemma ring_at_store_consumer:
  assumes "map_of (offsets storage) (po_Cluster offset) = Some c"
  shows "ring_at (store_consumer storage c offset v) (po_Cluster offset) (po_Group offset)
           (po_Topic offset) p = (if p < length v then v ! p else None)"
  by (simp add: ring_at_def store_consumer_def set_cluster_def AList.update_conv')

lemma addConsumerOffset_locked_existing:
  assumes c: "consumer c (po_Group offset) = Some m"
      and m: "map_of m (po_Topic offset) = Some v"
      and p: "nat (sint (po_Partition offset)) < length v"
      and r: "v ! nat (sint (po_Partition offset)) = Some r"
      and l: "ring_Prev_Value r = Some lastOffset"
  shows "addConsumerOffset_locked storage c offset brokerOffset n =
           Inr (if noadvance lastOffset offset \<or> mindistance (app storage) lastOffset offset
                then store_consumer storage c offset v
                else store_consumer storage c offset
                       (v[nat (sint (po_Partition offset)) :=
                            Some (ring_Next (ring_set_Value r (commit_entry offset brokerOffset)))]))"
  using assms by (simp add: addConsumerOffset_locked_def Let_def)

text \<open>
  C7: a commit for a ring that is there, whose last entry \<open>lastOffset\<close> exists, which
  reaches the gates (not blacklisted, partition within the broker vector, broker offset
  seen), passes the no-advance gate and has
  \<open>0 \<le> timestampDifference < MinDistance * 1000\<close>: when \<open>lastOffset\<close> is not
  artificial the storage is left as it was; when it is artificial the commit is
  written into the slot at the pointer of the ring and the pointer moves on.
\<close>

theorem C7_rate_limit:
  assumes ring: "ring_at storage (po_Cluster offset) (po_Group offset) (po_Topic offset)
                   (nat (sint (po_Partition offset))) = Some r"
      and last: "ring_Prev_Value r = Some lastOffset"
      and black: "\<not> blacklisted storage offset"
      and vec: "broker_vector storage (po_Cluster offset) (po_Topic offset) = Some topicPartitionList"
      and nonneg: "\<not> po_Partition offset <s 0"
      and below: "\<not> (word_of_nat (length topicPartitionList) :: int32) \<le>s po_Partition offset"
      and slot: "topicPartitionList ! nat (sint (po_Partition offset)) = Some b"
      and gate1: "\<not> noadvance lastOffset offset"
      and lower: "0 \<le>s timestampDifference lastOffset offset"
      and upper: "timestampDifference lastOffset offset <s MinDistance (app storage) * 1000"
  shows "(\<not> co_artificial lastOffset \<longrightarrow> addConsumerOffset storage offset = Inr storage) \<and>
         (co_artificial lastOffset \<longrightarrow>
            (\<exists>storage'. addConsumerOffset storage offset = Inr storage' \<and>
               ring_at storage' (po_Cluster offset) (po_Group offset) (po_Topic offset)
                 (nat (sint (po_Partition offset)))
               = Some (ring_Next (ring_set_Value r (commit_entry offset (bo_Offset b))))))"
proof -
  let ?p = "nat (sint (po_Partition offset))"
  from ring obtain c m v where
    c: "map_of (offsets storage) (po_Cluster offset) = Some c" and
    g: "consumer c (po_Group offset) = Some m" and
    t: "map_of m (po_Topic offset) = Some v" and
    p: "?p < length v" and
    r: "v ! ?p = Some r"
    by (auto simp: ring_at_def split: option.splits if_splits)
  from vec c have b: "broker c (po_Topic offset) = Some topicPartitionList"
    by (simp add: broker_vector_def)
  have inrange: "?p < length topicPartitionList"
    using nonneg below by (rule partition_in_range)
  have reach: "addConsumerOffset storage offset =
      addConsumerOffset_locked storage c offset (bo_Offset b) (length topicPartitionList)"
    using c b black nonneg below inrange slot by (simp add: addConsumerOffset_def)
  note locked = addConsumerOffset_locked_existing [OF g t p r last, of storage "bo_Offset b"
      "length topicPartitionList"]
  show ?thesis
  proof (cases "co_artificial lastOffset")
    case False
    then have "mindistance (app storage) lastOffset offset"
      using lower upper by (simp add: mindistance_def)
    then show ?thesis
      using False reach locked store_consumer_same [OF c g t] by simp
  next
    case True
    then have "\<not> mindistance (app storage) lastOffset offset"
      by (simp add: mindistance_def)
    then show ?thesis
      using True gate1 reach locked p by (simp add: ring_at_store_consumer [OF c])
  qed
qed

text \<open>
  C7 with \<open>MinDistance\<close> of 10 seconds on a ring of two slots: a commit 500 ms after a
  genuine last entry is dropped; after an evaluation has written an artificial commit,
  a commit 500 ms after it is written into the ring.
\<close>

theorem C7_rate_limit_witness:
  "addConsumerOffset (storage_after config_rate two_commits) (commit 101 20500)
     = Inr (storage_after config_rate two_commits) \<and>
   (\<exists>storage'. addConsumerOffset (storage_after config_rate two_commits_evaluated) (commit 101 21500)
       = Inr storage' \<and>
     ring_at storage' ''local'' ''G'' ''T'' 0 =
       Some (Ring (Some \<lparr>co_Offset = 100, co_Timestamp = 21000, co_Lag = 0, co_artificial = True\<rparr>)
                  [Some \<lparr>co_Offset = 101, co_Timestamp = 21500, co_Lag = 0, co_artificial = False\<rparr>]))"
proof -
  let ?c1 = "\<lparr>co_Offset = 100, co_Timestamp = 1000, co_Lag = 0, co_artificial = False\<rparr>"
  let ?c2 = "\<lparr>co_Offset = 100, co_Timestamp = 20000, co_Lag = 0, co_artificial = False\<rparr>"
  let ?art = "\<lparr>co_Offset = 100, co_Timestamp = 21000, co_Lag = 0, co_artificial = True\<rparr>"
  let ?b = "\<lparr>bo_Offset = 100, bo_Timestamp = 500\<rparr>"
  let ?S1 = "storage_after config_rate two_commits"
  let ?S2 = "storage_after config_rate two_commits_evaluated"
  let ?o1 = "commit 101 20500"
  let ?o2 = "commit 101 21500"
  have a1: "ring_at ?S1 (po_Cluster ?o1) (po_Group ?o1) (po_Topic ?o1) (nat (sint (po_Partition ?o1)))
              = Some (Ring (Some ?c1) [Some ?c2])" by code_simp
  have a2: "ring_Prev_Value (Ring (Some ?c1) [Some ?c2]) = Some ?c2" by simp
  have a3: "\<not> blacklisted ?S1 ?o1" by code_simp
  have a4: "broker_vector ?S1 (po_Cluster ?o1) (po_Topic ?o1) = Some [Some ?b]" by code_simp
  have a5: "\<not> po_Partition ?o1 <s 0" by code_simp
  have a6: "\<not> (word_of_nat (length [Some ?b]) :: int32) \<le>s po_Partition ?o1" by code_simp
  have a7: "[Some ?b] ! nat (sint (po_Partition ?o1)) = Some ?b" by code_simp
  have a8: "\<not> noadvance ?c2 ?o1" by code_simp
  have a9: "0 \<le>s timestampDifference ?c2 ?o1" by code_simp
  have a10: "timestampDifference ?c2 ?o1 <s MinDistance (app ?S1) * 1000" by code_simp
  have b1: "ring_at ?S2 (po_Cluster ?o2) (po_Group ?o2) (po_Topic ?o2) (nat (sint (po_Partition ?o2)))
              = Some (Ring (Some ?c2) [Some ?art])" by code_simp
  have b2: "ring_Prev_Value (Ring (Some ?c2) [Some ?art]) = Some ?art" by simp
  have b3: "\<not> blacklisted ?S2 ?o2" by code_simp
  have b4: "broker_vector ?S2 (po_Cluster ?o2) (po_Topic ?o2) = Some [Some ?b]" by code_simp
  have b5: "\<not> po_Partition ?o2 <s 0" by code_simp
  have b6: "\<not> (word_of_nat (length [Some ?b]) :: int32) \<le>s po_Partition ?o2" by code_simp
  have b7: "[Some ?b] ! nat (sint (po_Partition ?o2)) = Some ?b" by code_simp
  have b8: "\<not> noadvance ?art ?o2" by code_simp
  have b9: "0 \<le>s timestampDifference ?art ?o2" by code_simp
  have b10: "timestampDifference ?art ?o2 <s MinDistance (app ?S2) * 1000" by code_simp
  have e: "commit_entry ?o2 100
             = \<lparr>co_Offset = 101, co_Timestamp = 21500, co_Lag = 0, co_artificial = False\<rparr>"
    by code_simp
  have names: "po_Cluster ?o2 = ''local''" "po_Group ?o2 = ''G''" "po_Topic ?o2 = ''T''"
    "nat (sint (po_Partition ?o2)) = 0"
    by (simp_all add: commit_def)
  from C7_rate_limit [OF a1 a2 a3 a4 a5 a6 a7 a8 a9 a10]
  have first: "addConsumerOffset ?S1 ?o1 = Inr ?S1" by simp
  from C7_rate_limit [OF b1 b2 b3 b4 b5 b6 b7 b8 b9 b10]
  have second: "\<exists>storage'. addConsumerOffset ?S2 ?o2 = Inr storage' \<and>
     ring_at storage' ''local'' ''G'' ''T'' 0 = Some (Ring (Some ?art)
        [Some \<lparr>co_Offset = 101, co_Timestamp = 21500, co_Lag = 0, co_artificial = False\<rparr>])"
    by (simp add: e names)
  from first second show ?thesis by simp
qed

subsection \<open>Rings under a write at the pointer\<close>

lemma successively_nth:
  "successively P xs \<Longrightarrow> Suc i < length xs \<Longrightarrow> P (xs ! i) (xs ! Suc i)"
proof (induction P xs arbitrary: i rule: successively.induct)
  case (3 P x y xs)
  then show ?case by (cases i) auto
qed auto

lemma successively_tl: "successively P xs \<Longrightarrow> successively P (tl xs)"
  by (cases xs) (auto simp: successively_Cons)

lemma successively_unwritten:
  "successively slot_advanced (replicate k None @ [Some e])"
  by (induction k) (auto simp: successively_Cons slot_advanced_def hd_append)

lemma ring_Do_nonempty: "ring_Do r \<noteq> []"
  by (cases r) simp

lemma ring_Prev_Value_last: "ring_Prev_Value r = last (ring_Do r)"
  by (cases r) simp

lemma ring_Value_hd: "ring_Value r = hd (ring_Do r)"
  by (cases r) simp

lemma ring_ok_new:
  assumes "ring_New n = Some r0" and lag: "0 \<le>s co_Lag e"
  shows "ring_ok n (ring_Next (ring_set_Value r0 e))"
proof -
  from assms(1) have n: "0 < n" and r0: "r0 = Ring None (replicate (nat n - 1) None)"
    by (auto simp: ring_New_def split: if_splits)
  have d: "ring_Do (ring_Next (ring_set_Value r0 e)) = replicate (nat n - 1) None @ [Some e]"
    unfolding r0 by (simp only: ring_Do_write) simp
  have "\<exists>k xs. replicate (nat n - 1) None @ [Some e] = replicate k None @ map Some xs \<and> xs \<noteq> []"
    by (intro exI [of _ "nat n - 1"] exI [of _ "[e]"]) simp
  moreover have "int (length (replicate (nat n - 1) None @ [Some e])) = n"
    using n by simp
  moreover have "\<forall>c. Some c \<in> set (replicate (nat n - 1) None @ [Some e]) \<longrightarrow> 0 \<le>s co_Lag c"
    using lag by auto
  ultimately show ?thesis
    unfolding ring_ok_def d using successively_unwritten by blast
qed

lemma ring_ok_write:
  assumes ok: "ring_ok n r"
      and last: "ring_Prev_Value r = Some lastOffset"
      and adv: "slot_advanced (Some lastOffset) (Some e)"
      and lag: "0 \<le>s co_Lag e"
  shows "ring_ok n (ring_Next (ring_set_Value r e))"
proof -
  let ?l = "ring_Do r"
  from ok obtain k xs where
    len: "int (length ?l) = n" and shape: "?l = replicate k None @ map Some xs" and
    xs: "xs \<noteq> []" and succ: "successively slot_advanced ?l" and
    lags: "\<forall>c. Some c \<in> set ?l \<longrightarrow> 0 \<le>s co_Lag c"
    by (auto simp: ring_ok_def)
  have ne: "?l \<noteq> []" by (rule ring_Do_nonempty)
  have len': "int (length (tl ?l @ [Some e])) = n"
    using len ne by (cases ?l) auto
  have shape': "\<exists>k' ys. tl ?l @ [Some e] = replicate k' None @ map Some ys \<and> ys \<noteq> []"
  proof (cases k)
    case 0
    with shape xs have "tl ?l @ [Some e] = replicate 0 None @ map Some (tl xs @ [e]) \<and> tl xs @ [e] \<noteq> []"
      by (cases xs) auto
    then show ?thesis by (intro exI [of _ 0] exI [of _ "tl xs @ [e]"])
  next
    case (Suc j)
    with shape have "tl ?l @ [Some e] = replicate j None @ map Some (xs @ [e]) \<and> xs @ [e] \<noteq> []"
      by simp
    then show ?thesis by (intro exI [of _ j] exI [of _ "xs @ [e]"])
  qed
  have succ': "successively slot_advanced (tl ?l @ [Some e])"
  proof (cases "tl ?l = []")
    case True
    then show ?thesis by simp
  next
    case False
    then have "last (tl ?l) = last ?l" by (simp add: last_tl)
    with last have "last (tl ?l) = Some lastOffset" by (simp add: ring_Prev_Value_last)
    with adv successively_tl [OF succ] show ?thesis
      by (simp add: successively_append_iff)
  qed
  have lags': "\<forall>c. Some c \<in> set (tl ?l @ [Some e]) \<longrightarrow> 0 \<le>s co_Lag c"
    using lags lag ne by (auto dest: list.set_sel(2))
  show ?thesis
    unfolding ring_ok_def ring_Do_write using len' shape' succ' lags' by blast
qed

lemma slot_advanced_artificial: "slot_advanced x (Some (artificial_entry now lastOffset))"
  by (simp add: slot_advanced_def artificial_entry_def split: option.splits)

lemma artificial_entry_lag: "0 \<le>s co_Lag (artificial_entry now lastOffset)"
  by (simp add: artificial_entry_def)

lemma commit_entry_lag: "0 \<le>s co_Lag (commit_entry offset brokerOffset)"
  by (simp add: commit_entry_def Let_def word_sle_eq word_sless_alt)

subsection \<open>The invariant is kept by every handler\<close>

lemma vec_inv_backs:
  assumes v: "vec_inv cfg bt v"
      and b: "\<And>bl. bt = Some bl \<Longrightarrow>
                \<exists>bl'. bt' = Some bl' \<and> length bl \<le> length bl' \<and>
                      (\<forall>p<length bl. bl ! p \<noteq> None \<longrightarrow> bl' ! p \<noteq> None)"
  shows "vec_inv cfg bt' v"
  unfolding vec_inv_def
proof (intro allI impI)
  fix p r
  assume p: "p < length v" and r: "v ! p = Some r"
  with v obtain bl x where ok: "ring_ok (Intervals cfg) r" and
    bl: "bt = Some bl" "p < length bl" "bl ! p = Some x"
    unfolding vec_inv_def by blast
  from b [OF bl(1)] obtain bl' where
    bl': "bt' = Some bl'" "length bl \<le> length bl'"
         "\<forall>p<length bl. bl ! p \<noteq> None \<longrightarrow> bl' ! p \<noteq> None"
    by blast
  from bl bl' have "p < length bl'" "bl' ! p \<noteq> None" by auto
  with ok bl'(1) show "ring_ok (Intervals cfg) r \<and>
      (\<exists>bl b. bt' = Some bl \<and> p < length bl \<and> bl ! p = Some b)"
    by auto
qed

lemma storage_inv_cluster:
  "storage_inv cfg storage \<Longrightarrow> map_of (offsets storage) cluster = Some c \<Longrightarrow> cluster_inv cfg c"
  by (simp add: storage_inv_def)

lemma storage_inv_set_cluster:
  "storage_inv cfg storage \<Longrightarrow> cluster_inv cfg c' \<Longrightarrow>
     storage_inv cfg (set_cluster storage cluster c')"
  by (simp add: storage_inv_def set_cluster_def AList.update_conv')

lemma in_set_update:
  "(k', v') \<in> set (AList.update k v al) \<Longrightarrow> (k', v') = (k, v) \<or> (k', v') \<in> set al"
  by (induction al) (auto split: if_splits)

lemma group_inv_update:
  "group_inv cfg bm m \<Longrightarrow> vec_inv cfg (bm topic) v \<Longrightarrow> group_inv cfg bm (AList.update topic v m)"
  unfolding group_inv_def by (blast dest: in_set_update)

lemma group_inv_Nil: "group_inv cfg bm []"
  by (simp add: group_inv_def)

lemma cluster_inv_broker_update:
  assumes c: "cluster_inv cfg c"
      and b: "\<And>stored. broker c topic = Some stored \<Longrightarrow>
                length stored \<le> length bl' \<and>
                (\<forall>p<length stored. stored ! p \<noteq> None \<longrightarrow> bl' ! p \<noteq> None)"
  shows "cluster_inv cfg (c\<lparr>broker := (broker c)(topic \<mapsto> bl')\<rparr>)"
  unfolding cluster_inv_def group_inv_def
proof (intro allI impI)
  fix grp m t v
  assume "consumer (c\<lparr>broker := (broker c)(topic \<mapsto> bl')\<rparr>) grp = Some m" and tv: "(t, v) \<in> set m"
  then have "consumer c grp = Some m" by simp
  with c tv have old: "vec_inv cfg (broker c t) v"
    unfolding cluster_inv_def group_inv_def by blast
  show "vec_inv cfg (broker (c\<lparr>broker := (broker c)(topic \<mapsto> bl')\<rparr>) t) v"
  proof (cases "t = topic")
    case False
    with old show ?thesis by simp
  next
    case True
    have "vec_inv cfg (Some bl') v"
      using old unfolding True by (rule vec_inv_backs) (use b in auto)
    with True show ?thesis by simp
  qed
qed

lemma cluster_inv_consumer_update:
  "cluster_inv cfg c \<Longrightarrow> group_inv cfg (broker c) m \<Longrightarrow>
     cluster_inv cfg (c\<lparr>consumer := (consumer c)(grp \<mapsto> m)\<rparr>)"
  by (simp add: cluster_inv_def)

lemma cluster_inv_consumer_delete:
  "cluster_inv cfg c \<Longrightarrow> cluster_inv cfg (c\<lparr>consumer := (consumer c)(grp := None)\<rparr>)"
  by (simp add: cluster_inv_def)

lemma list_update_keeps_Some:
  "p < length xs \<Longrightarrow> xs ! p \<noteq> None \<Longrightarrow> xs[i := Some x] ! p \<noteq> None"
  by (cases "i = p") auto

lemma addBrokerOffset_inv:
  assumes inv: "storage_inv cfg storage" and step: "addBrokerOffset storage offset = Inr storage'"
  shows "storage_inv cfg storage'"
proof (cases "map_of (offsets storage) (po_Cluster offset)")
  case None
  with step inv show ?thesis by (simp add: addBrokerOffset_def)
next
  case (Some c)
  note c = storage_inv_cluster [OF inv Some]
  show ?thesis
  proof (cases "broker c (po_Topic offset)")
    case None
    with step Some have "\<exists>bl'. storage' = set_cluster storage (po_Cluster offset)
        (c\<lparr>broker := (broker c)(po_Topic offset \<mapsto> bl')\<rparr>)"
      by (auto simp: addBrokerOffset_def Let_def split: if_splits)
    then obtain bl' where s': "storage' = set_cluster storage (po_Cluster offset)
        (c\<lparr>broker := (broker c)(po_Topic offset \<mapsto> bl')\<rparr>)" ..
    show ?thesis unfolding s'
      by (intro storage_inv_set_cluster inv cluster_inv_broker_update c) (simp add: None)
  next
    case stored: (Some stored)
    let ?new = "stored[nat (sint (po_Partition offset)) :=
                  Some \<lparr>bo_Offset = po_Offset offset, bo_Timestamp = po_Timestamp offset\<rparr>]"
    from step Some stored have "storage' = storage \<or> storage' =
        set_cluster storage (po_Cluster offset) (c\<lparr>broker := (broker c)(po_Topic offset \<mapsto> ?new)\<rparr>)"
      by (auto simp: addBrokerOffset_def Let_def split: if_splits option.splits)
    then show ?thesis
    proof
      assume "storage' = storage" with inv show ?thesis by simp
    next
      assume s': "storage' =
        set_cluster storage (po_Cluster offset) (c\<lparr>broker := (broker c)(po_Topic offset \<mapsto> ?new)\<rparr>)"
      show ?thesis unfolding s'
        by (intro storage_inv_set_cluster inv cluster_inv_broker_update c)
           (simp add: stored list_update_keeps_Some)
    qed
  qed
qed

lemma dropGroup_inv:
  assumes inv: "storage_inv cfg storage" and step: "dropGroup storage cluster grp = Inr (storage', reply)"
  shows "storage_inv cfg storage'"
  using step inv
  by (auto simp: dropGroup_def split: option.splits
           intro!: storage_inv_set_cluster cluster_inv_consumer_delete storage_inv_cluster)

lemma vec_inv_replicate: "vec_inv cfg bt (replicate n None)"
  by (simp add: vec_inv_def)

lemma vec_inv_list_update:
  assumes v: "vec_inv cfg (Some bl) v"
      and r: "ring_ok (Intervals cfg) r"
      and b: "p < length bl" "bl ! p = Some b"
  shows "vec_inv cfg (Some bl) (v[p := Some r])"
  unfolding vec_inv_def
proof (intro allI impI)
  fix q r'
  assume q: "q < length (v[p := Some r])" and r': "v[p := Some r] ! q = Some r'"
  show "ring_ok (Intervals cfg) r' \<and> (\<exists>bl' b'. Some bl = Some bl' \<and> q < length bl' \<and> bl' ! q = Some b')"
  proof (cases "q = p")
    case True
    with q r' have "r' = r" by simp
    with r b True show ?thesis by simp
  next
    case False
    with q r' have "q < length v" "v ! q = Some r'" by simp_all
    with v show ?thesis unfolding vec_inv_def by blast
  qed
qed

lemma slot_advanced_commit:
  "\<not> noadvance lastOffset offset \<Longrightarrow>
     slot_advanced (Some lastOffset) (Some (commit_entry offset brokerOffset))"
  by (auto simp: noadvance_def slot_advanced_def advanced_def commit_entry_def Let_def
        timestampDifference_def word_sle_eq word_sless_alt)

lemma stored_vec_inv:
  assumes c: "cluster_inv cfg c"
  shows "vec_inv cfg (broker c topic)
           (case map_of (case consumer c grp of None \<Rightarrow> [] | Some m \<Rightarrow> m) topic of
              None \<Rightarrow> replicate n None | Some v \<Rightarrow> v)"
proof (cases "consumer c grp")
  case None
  then show ?thesis by (simp add: vec_inv_replicate)
next
  case (Some m)
  show ?thesis
  proof (cases "map_of m topic")
    case None
    with Some show ?thesis by (simp add: vec_inv_replicate)
  next
    case v: (Some v)
    then have "(topic, v) \<in> set m" by (rule map_of_SomeD)
    with c Some have "vec_inv cfg (broker c topic) v"
      unfolding cluster_inv_def group_inv_def by blast
    with Some v show ?thesis by simp
  qed
qed

lemma addConsumerOffset_locked_vec:
  assumes c: "cluster_inv cfg c" and app: "app storage = cfg"
      and bl: "broker c (po_Topic offset) = Some bl"
      and p: "nat (sint (po_Partition offset)) < length bl"
      and b: "bl ! nat (sint (po_Partition offset)) = Some b"
      and step: "addConsumerOffset_locked storage c offset (bo_Offset b) (length bl) = Inr storage'"
  shows "\<exists>vec. storage' = store_consumer storage c offset vec \<and> vec_inv cfg (Some bl) vec"
proof -
  let ?p = "nat (sint (po_Partition offset))"
  let ?stored = "case map_of (case consumer c (po_Group offset) of None \<Rightarrow> [] | Some m \<Rightarrow> m)
                        (po_Topic offset) of
                   None \<Rightarrow> replicate (length bl) None | Some v \<Rightarrow> v"
  let ?e = "commit_entry offset (bo_Offset b)"
  have stored: "vec_inv cfg (Some bl) ?stored"
    using stored_vec_inv [OF c, where topic = "po_Topic offset" and grp = "po_Group offset"
        and n = "length bl"] bl by simp
  show ?thesis
  proof (cases "length ?stored \<le> ?p")
    case True
    then have copied: "length ?stored \<le> ?p \<and> length ?stored < length bl" using p by simp
    from step have "storage' = store_consumer storage c offset ?stored"
      using copied unfolding addConsumerOffset_locked_def Let_def
      by (simp split: if_splits option.splits)
    with stored show ?thesis by blast
  next
    case False
    then have inr: "?p < length ?stored" by simp
    show ?thesis
    proof (cases "?stored ! ?p")
      case None
      with step False inr obtain r0 where r0: "ring_New (Intervals cfg) = Some r0" and
        s': "storage' = store_consumer storage c offset
               (?stored[?p := Some (ring_Next (ring_set_Value r0 ?e))])"
        unfolding addConsumerOffset_locked_def Let_def
        by (auto simp: app split: if_splits option.splits)
      have "vec_inv cfg (Some bl) (?stored[?p := Some (ring_Next (ring_set_Value r0 ?e))])"
        using stored ring_ok_new [OF r0 commit_entry_lag] p b by (rule vec_inv_list_update)
      with s' show ?thesis by blast
    next
      case (Some r)
      with stored inr have ok: "ring_ok (Intervals cfg) r" unfolding vec_inv_def by blast
      from step False inr Some obtain lastOffset where
        last: "ring_Prev_Value r = Some lastOffset" and
        s': "storage' = store_consumer storage c offset ?stored \<or>
             \<not> noadvance lastOffset offset \<and>
             storage' = store_consumer storage c offset
               (?stored[?p := Some (ring_Next (ring_set_Value r ?e))])"
        unfolding addConsumerOffset_locked_def Let_def
        by (auto split: if_splits option.splits)
      from s' show ?thesis
      proof
        assume "storage' = store_consumer storage c offset ?stored"
        with stored show ?thesis by blast
      next
        assume a: "\<not> noadvance lastOffset offset \<and>
             storage' = store_consumer storage c offset
               (?stored[?p := Some (ring_Next (ring_set_Value r ?e))])"
        then have "ring_ok (Intervals cfg) (ring_Next (ring_set_Value r ?e))"
          using ok last by (intro ring_ok_write slot_advanced_commit commit_entry_lag) auto
        then have "vec_inv cfg (Some bl) (?stored[?p := Some (ring_Next (ring_set_Value r ?e))])"
          using stored p b by (intro vec_inv_list_update)
        with a show ?thesis by blast
      qed
    qed
  qed
qed

lemma store_consumer_inv:
  assumes inv: "storage_inv cfg storage"
      and c: "map_of (offsets storage) (po_Cluster offset) = Some c"
      and v: "vec_inv cfg (broker c (po_Topic offset)) vec"
  shows "storage_inv cfg (store_consumer storage c offset vec)"
proof -
  note ci = storage_inv_cluster [OF inv c]
  have "group_inv cfg (broker c) (case consumer c (po_Group offset) of None \<Rightarrow> [] | Some m \<Rightarrow> m)"
    using ci by (auto simp: cluster_inv_def group_inv_Nil split: option.splits)
  then have "group_inv cfg (broker c)
      (AList.update (po_Topic offset) vec
         (case consumer c (po_Group offset) of None \<Rightarrow> [] | Some m \<Rightarrow> m))"
    using v by (rule group_inv_update)
  then show ?thesis
    unfolding store_consumer_def
    by (intro storage_inv_set_cluster inv cluster_inv_consumer_update ci)
qed

lemma addConsumerOffset_inv:
  assumes inv: "storage_inv cfg storage" and step: "addConsumerOffset storage offset = Inr storage'"
  shows "storage_inv cfg storage'"
proof (cases "map_of (offsets storage) (po_Cluster offset)")
  case None
  with step inv show ?thesis by (simp add: addConsumerOffset_def)
next
  case (Some c)
  note ci = storage_inv_cluster [OF inv Some]
  from inv have app: "app storage = cfg" by (simp add: storage_inv_def)
  from step Some have "storage' = storage \<or>
     (\<exists>bl b. broker c (po_Topic offset) = Some bl \<and> nat (sint (po_Partition offset)) < length bl \<and>
        bl ! nat (sint (po_Partition offset)) = Some b \<and>
        addConsumerOffset_locked storage c offset (bo_Offset b) (length bl) = Inr storage')"
    by (auto simp: addConsumerOffset_def split: if_splits option.splits)
  then show ?thesis
  proof
    assume "storage' = storage" with inv show ?thesis by simp
  next
    assume "\<exists>bl b. broker c (po_Topic offset) = Some bl \<and> nat (sint (po_Partition offset)) < length bl \<and>
        bl ! nat (sint (po_Partition offset)) = Some b \<and>
        addConsumerOffset_locked storage c offset (bo_Offset b) (length bl) = Inr storage'"
    then obtain bl b where bl: "broker c (po_Topic offset) = Some bl"
      and p: "nat (sint (po_Partition offset)) < length bl"
      and b: "bl ! nat (sint (po_Partition offset)) = Some b"
      and l: "addConsumerOffset_locked storage c offset (bo_Offset b) (length bl) = Inr storage'"
      by blast
    from addConsumerOffset_locked_vec [OF ci app bl p b l] obtain vec where
      "storage' = store_consumer storage c offset vec" "vec_inv cfg (Some bl) vec" by blast
    then show ?thesis using store_consumer_inv [OF inv Some, of vec] bl by simp
  qed
qed

text \<open>
  On a storage that satisfies the invariant \<open>evaluateGroup\<close> returns: every read of
  the scan finds what it dereferences.
\<close>

lemma copy_ring_total:
  "idx + length ys \<le> length pm \<Longrightarrow> \<exists>pm' y'. copy_ring idx (map Some ys) (pm, y) = Inr (pm', y')"
proof (induction ys arbitrary: idx pm y)
  case Nil
  then show ?case by simp
next
  case (Cons c ys)
  then have "Suc idx + length ys \<le> length (pm[idx := c])" by simp
  from Cons.IH [OF this] Cons.prems show ?case by simp
qed

lemma ring_ok_full:
  assumes ok: "ring_ok n r" and v: "ring_Value r \<noteq> None"
  shows "\<exists>xs. ring_Do r = map Some xs \<and> xs \<noteq> [] \<and> int (length xs) = n"
proof -
  from ok obtain k xs where len: "int (length (ring_Do r)) = n"
    and shape: "ring_Do r = replicate k None @ map Some xs" and xs: "xs \<noteq> []"
    by (auto simp: ring_ok_def)
  have "k = 0"
  proof (rule ccontr)
    assume "k \<noteq> 0"
    then obtain j where "k = Suc j" by (cases k) auto
    with shape have "hd (ring_Do r) = None" by simp
    with v show False by (simp add: ring_Value_hd)
  qed
  with shape len xs show ?thesis by auto
qed

lemma scan_partition_ok:
  assumes inv: "\<And>r. offsetRing = Some r \<Longrightarrow>
                 ring_ok (Intervals cfg) r \<and>
                 (\<exists>bl b. bt = Some bl \<and> partn < length bl \<and> bl ! partn = Some b)"
  shows "\<exists>r' snap acc'. scan_partition cfg now bt partn offsetRing acc = Inr (r', snap, acc') \<and>
           (r' = None \<longleftrightarrow> offsetRing = None) \<and> (\<forall>x. r' = Some x \<longrightarrow> ring_ok (Intervals cfg) x)"
proof (cases offsetRing)
  case None
  then show ?thesis by (cases acc) (auto simp: scan_partition_def)
next
  case (Some r)
  from inv [OF Some] obtain bl b where ok: "ring_ok (Intervals cfg) r"
    and bl: "bt = Some bl" "partn < length bl" "bl ! partn = Some b" by blast
  show ?thesis
  proof (cases "ring_Value r = None")
    case True
    with Some ok show ?thesis by (cases acc) (auto simp: scan_partition_def)
  next
    case False
    from ring_ok_full [OF ok False] obtain xs where
      xs: "ring_Do r = map Some xs" "xs \<noteq> []" "int (length xs) = Intervals cfg" by blast
    then have last: "ring_Prev_Value r = Some (last xs)"
      by (simp add: ring_Prev_Value_last last_map)
    define r' where "r' = (if bo_Offset b \<le>s co_Offset (last xs)
                           then ring_Next (ring_set_Value r (artificial_entry now (last xs)))
                           else r)"
    have ok': "ring_ok (Intervals cfg) r'"
      unfolding r'_def using ok last
      by (auto intro: ring_ok_write slot_advanced_artificial artificial_entry_lag)
    have "\<exists>ys. ring_Do r' = map Some ys \<and> length ys = nat (Intervals cfg)"
    proof (cases "bo_Offset b \<le>s co_Offset (last xs)")
      case True
      then have "ring_Do r' = map Some (tl xs @ [artificial_entry now (last xs)])"
        by (simp add: r'_def ring_Do_write xs map_tl)
      moreover have "length (tl xs @ [artificial_entry now (last xs)]) = nat (Intervals cfg)"
        using xs by (cases xs) auto
      ultimately show ?thesis by blast
    next
      case False
      with xs show ?thesis by (auto simp: r'_def)
    qed
    then obtain ys where ys: "ring_Do r' = map Some ys" "length ys = nat (Intervals cfg)" by blast
    obtain y where acc: "acc = (fst acc, fst (snd acc), y)" by (cases acc) auto
    have "0 + length ys \<le> length (replicate (nat (Intervals cfg)) zero_ConsumerOffset)"
      using ys by simp
    from copy_ring_total [OF this, of y] obtain pm' y' where
      cp: "copy_ring 0 (ring_Do r') (replicate (nat (Intervals cfg)) zero_ConsumerOffset, y)
             = Inr (pm', y')"
      unfolding ys(1) by blast
    have nonneg: "\<not> Intervals cfg < 0" using xs by linarith
    from False obtain v0 where v0: "ring_Value r = Some v0" by blast
    have "scan_partition cfg now bt partn offsetRing acc
            = Inr (Some r', pm', fst acc + 1, fst (snd acc), y')"
      apply (subst acc)
      using Some v0 last bl nonneg cp
      by (simp add: scan_partition_def Let_def r'_def)
    with ok' Some show ?thesis by simp
  qed
qed

lemma scan_partitions_ok:
  assumes "vec_inv cfg (map_option (drop k) bt) rs"
  shows "\<exists>rs' snaps acc'. scan_partitions cfg now bt k rs acc = Inr (rs', snaps, acc') \<and>
           vec_inv cfg (map_option (drop k) bt) rs'"
  using assms
proof (induction rs arbitrary: k acc)
  case Nil
  then show ?case by (cases acc) simp
next
  case (Cons r rs)
  have head: "\<And>x. r = Some x \<Longrightarrow> ring_ok (Intervals cfg) x \<and>
                 (\<exists>bl b. bt = Some bl \<and> k < length bl \<and> bl ! k = Some b)"
  proof -
    fix x assume "r = Some x"
    with Cons.prems have "ring_ok (Intervals cfg) x \<and>
       (\<exists>bl b. map_option (drop k) bt = Some bl \<and> 0 < length bl \<and> bl ! 0 = Some b)"
      unfolding vec_inv_def by (metis length_Cons nth_Cons_0 zero_less_Suc)
    then show "ring_ok (Intervals cfg) x \<and> (\<exists>bl b. bt = Some bl \<and> k < length bl \<and> bl ! k = Some b)"
      by (cases bt) auto
  qed
  have tail: "vec_inv cfg (map_option (drop (Suc k)) bt) rs"
    unfolding vec_inv_def
  proof (intro allI impI)
    fix p x assume p: "p < length rs" "rs ! p = Some x"
    then have "Suc p < length (r # rs)" "(r # rs) ! Suc p = Some x" by simp_all
    with Cons.prems obtain bl b where "ring_ok (Intervals cfg) x"
      "map_option (drop k) bt = Some bl" "Suc p < length bl" "bl ! Suc p = Some b"
      unfolding vec_inv_def by blast
    then show "ring_ok (Intervals cfg) x \<and>
       (\<exists>bl b. map_option (drop (Suc k)) bt = Some bl \<and> p < length bl \<and> bl ! p = Some b)"
      by (cases bt) (auto simp: add.commute)
  qed
  from scan_partition_ok [of r cfg bt k now acc, OF head] obtain r' snap acc' where
    r': "scan_partition cfg now bt k r acc = Inr (r', snap, acc')"
        "r' = None \<longleftrightarrow> r = None" "\<forall>x. r' = Some x \<longrightarrow> ring_ok (Intervals cfg) x"
    by blast
  from Cons.IH [OF tail, of acc'] obtain rs' snaps acc'' where
    rs': "scan_partitions cfg now bt (Suc k) rs acc' = Inr (rs', snaps, acc'')"
         "vec_inv cfg (map_option (drop (Suc k)) bt) rs'"
    by blast
  have "vec_inv cfg (map_option (drop k) bt) (r' # rs')"
    unfolding vec_inv_def
  proof (intro allI impI)
    fix p x assume p: "p < length (r' # rs')" "(r' # rs') ! p = Some x"
    show "ring_ok (Intervals cfg) x \<and>
       (\<exists>bl b. map_option (drop k) bt = Some bl \<and> p < length bl \<and> bl ! p = Some b)"
    proof (cases p)
      case 0
      with p have x: "r' = Some x" by simp
      with r' obtain x0 where "r = Some x0" by (cases r) auto
      from head [OF this] x r'(3) show ?thesis by (auto simp: 0)
    next
      case (Suc q)
      with p have "q < length rs'" "rs' ! q = Some x" by simp_all
      with rs'(2) obtain bl b where "ring_ok (Intervals cfg) x"
        "map_option (drop (Suc k)) bt = Some bl" "q < length bl" "bl ! q = Some b"
        unfolding vec_inv_def by blast
      then show ?thesis by (cases bt) (auto simp: Suc add.commute)
    qed
  qed
  with r'(1) rs'(1) show ?case by (cases acc'') auto
qed

lemma scan_topics_ok:
  assumes "group_inv cfg bm m"
  shows "\<exists>m' ol acc'. scan_topics cfg now bm m acc = Inr (m', ol, acc') \<and> group_inv cfg bm m'"
  using assms
proof (induction m arbitrary: acc)
  case Nil
  then show ?case by (cases acc) (simp add: group_inv_Nil)
next
  case (Cons tv m)
  obtain topic v where tv: "tv = (topic, v)" by (cases tv)
  from Cons.prems have v: "vec_inv cfg (bm topic) v" and m: "group_inv cfg bm m"
    by (auto simp: group_inv_def tv)
  have "vec_inv cfg (map_option (drop 0) (bm topic)) v"
    using v by (simp add: option.map_ident)
  from scan_partitions_ok [OF this, of now acc] obtain v' snaps acc' where
    v': "scan_partitions cfg now (bm topic) 0 v acc = Inr (v', snaps, acc')"
        "vec_inv cfg (bm topic) v'"
    by (auto simp: option.map_ident)
  from Cons.IH [OF m, of acc'] obtain m' ol acc'' where
    m': "scan_topics cfg now bm m acc' = Inr (m', ol, acc'')" "group_inv cfg bm m'"
    by blast
  have "group_inv cfg bm ((topic, v') # m')"
    using v'(2) m'(2) by (auto simp: group_inv_def)
  with v'(1) m'(1) show ?case by (cases acc'') (auto simp: tv)
qed

lemma evaluateGroup_ok:
  assumes inv: "storage_inv cfg storage"
  shows "\<exists>storage' reply. evaluateGroup now storage cluster grp showall = Inr (storage', reply) \<and>
           storage_inv cfg storage'"
proof (cases "map_of (offsets storage) cluster")
  case None
  with inv show ?thesis by (simp add: evaluateGroup_def)
next
  case (Some c)
  note ci = storage_inv_cluster [OF inv Some]
  from inv have app: "app storage = cfg" by (simp add: storage_inv_def)
  show ?thesis
  proof (cases "consumer c grp")
    case None
    with Some inv show ?thesis by (simp add: evaluateGroup_def)
  next
    case m: (Some m)
    with ci have "group_inv cfg (broker c) m" by (simp add: cluster_inv_def)
    from scan_topics_ok [OF this, of now "(0, True, 0)"] obtain m' ol t cm y where
      sc: "scan_topics cfg now (broker c) m (0, True, 0) = Inr (m', ol, t, cm, y)"
      and m': "group_inv cfg (broker c) m'"
      by (metis prod_cases3)
    have 1: "storage_inv cfg (set_cluster storage cluster (c\<lparr>consumer := (consumer c)(grp := None)\<rparr>))"
      by (intro storage_inv_set_cluster inv cluster_inv_consumer_delete ci)
    have 2: "storage_inv cfg (set_cluster storage cluster (c\<lparr>consumer := (consumer c)(grp \<mapsto> m')\<rparr>))"
      by (intro storage_inv_set_cluster inv cluster_inv_consumer_update ci m')
    show ?thesis
      using Some m sc 1 2
      by (simp add: evaluateGroup_def app Let_def split: prod.splits)
  qed
qed

lemma foldl_update_values:
  assumes "\<And>k v. (k, v) \<in> set acc \<Longrightarrow> P v" and "P new"
  shows "(k, v) \<in> set (foldl (\<lambda>m k. AList.update k new m) acc ks) \<Longrightarrow> P v"
  using assms(1)
proof (induction ks arbitrary: acc)
  case Nil
  then show ?case by simp
next
  case (Cons k' ks)
  show ?case
  proof (rule Cons.IH)
    show "(k, v) \<in> set (foldl (\<lambda>m k. AList.update k new m) (AList.update k' new acc) ks)"
      using Cons.prems(1) by simp
  next
    fix k'' v'' assume "(k'', v'') \<in> set (AList.update k' new acc)"
    then show "P v''" using Cons.prems(2) assms(2) by (auto dest: in_set_update)
  qed
qed

lemma NewOffsetStorage_inv: "storage_inv cfg (NewOffsetStorage cfg gb tb)"
proof -
  have "cluster_inv cfg c"
    if "map_of (offsets (NewOffsetStorage cfg gb tb)) cluster = Some c" for cluster c
  proof -
    from that have "(cluster, c) \<in> set (foldl (\<lambda>m k.
        AList.update k \<lparr>broker = Map.empty, consumer = Map.empty\<rparr> m) [] (Kafka cfg))"
      by (auto simp: NewOffsetStorage_def dest: map_of_SomeD)
    then show ?thesis
      by (rule foldl_update_values [rotated 2, where P = "cluster_inv cfg"])
         (simp_all add: cluster_inv_def)
  qed
  then show ?thesis by (simp add: storage_inv_def) (simp add: NewOffsetStorage_def)
qed

lemma actor_step_inv:
  assumes inv: "storage_inv cfg storage" and step: "actor_step storage ev = Inr storage'"
  shows "storage_inv cfg storage'"
proof (cases ev)
  case (OffsetEvent o')
  with step inv show ?thesis
    by (auto simp: actor_step_def split: if_splits intro: addBrokerOffset_inv addConsumerOffset_inv)
next
  case (RequestEvent now r)
  show ?thesis
  proof (cases "request_switch r")
    case None
    with RequestEvent step inv show ?thesis by (simp add: actor_step_def)
  next
    case (Some call)
    show ?thesis
    proof (cases call)
      case (Call_evaluateGroup cluster grp showall)
      from evaluateGroup_ok [OF inv, of now cluster grp showall] obtain s' reply where
        "evaluateGroup now storage cluster grp showall = Inr (s', reply)" "storage_inv cfg s'"
        by blast
      with RequestEvent Some Call_evaluateGroup step show ?thesis
        by (simp add: actor_step_def)
    next
      case (Call_dropGroup cluster grp)
      with RequestEvent Some step inv show ?thesis
        by (auto simp: actor_step_def split: sum.splits intro: dropGroup_inv)
    qed (use RequestEvent Some step inv in \<open>simp_all add: actor_step_def\<close>)
  qed
qed

lemma reachable_inv: "reachable cfg gb tb storage \<Longrightarrow> storage_inv cfg storage"
  by (induction rule: reachable.induct) (auto intro: NewOffsetStorage_inv actor_step_inv)

lemma run_reachable:
  "reachable cfg gb tb storage \<Longrightarrow> run storage evs = Inr storage' \<Longrightarrow> reachable cfg gb tb storage'"
proof (induction evs arbitrary: storage)
  case Nil
  then show ?case by simp
next
  case (Cons ev evs)
  then show ?case
    by (auto split: sum.splits intro: reachable_step)
qed

lemma storage_after_reachable:
  assumes "isl (run (NewOffsetStorage cfg None None) evs) = False"
  shows "reachable cfg None None (storage_after cfg evs)"
proof -
  from assms have "run (NewOffsetStorage cfg None None) evs = Inr (storage_after cfg evs)"
    by (cases "run (NewOffsetStorage cfg None None) evs") (simp_all add: storage_after_def)
  with reachable_init show ?thesis by (rule run_reachable)
qed

lemma ring_at_inv:
  assumes inv: "storage_inv cfg storage" and ring: "ring_at storage cluster grp topic p = Some r"
  shows "ring_ok (Intervals cfg) r \<and>
         (\<exists>bl b. broker_vector storage cluster topic = Some bl \<and> p < length bl \<and> bl ! p = Some b)"
proof -
  from ring obtain c m v where
    c: "map_of (offsets storage) cluster = Some c" and
    g: "consumer c grp = Some m" and
    t: "map_of m topic = Some v" and
    p: "p < length v" "v ! p = Some r"
    by (auto simp: ring_at_def split: option.splits if_splits)
  from t have "(topic, v) \<in> set m" by (rule map_of_SomeD)
  with storage_inv_cluster [OF inv c] g have "vec_inv cfg (broker c topic) v"
    unfolding cluster_inv_def group_inv_def by blast
  with p c show ?thesis unfolding vec_inv_def broker_vector_def by simp
qed

subsection \<open>Rings and the broker table\<close>

text \<open>
  C10: in every state the actor reaches from \<open>NewOffsetStorage\<close>, a ring stored at
  a cluster, group, topic and partition has a broker offset at that topic and
  partition of the cluster's broker table (the vector is there, the partition is within
  it, the entry is not nil), and \<open>evaluateGroup\<close> returns a reply for every cluster,
  group and clock reading: none of its reads, the one of
  \<open>clusterMap.broker[topic][partition].Offset\<close> among them, faults.
\<close>

theorem C10_ring_has_broker_offset:
  assumes "reachable cfg gb tb storage"
  shows "(ring_at storage cluster grp topic p = Some r \<longrightarrow>
            (\<exists>bl b. broker_vector storage cluster topic = Some bl \<and> p < length bl \<and>
                    bl ! p = Some b)) \<and>
         (\<exists>storage' reply. evaluateGroup now storage cluster grp showall = Inr (storage', reply))"
proof -
  note inv = reachable_inv [OF assms]
  show ?thesis
    using ring_at_inv [OF inv, of cluster grp topic p r]
      evaluateGroup_ok [OF inv, of now cluster grp showall]
    by blast
qed

subsection \<open>Successive entries of a ring\<close>

lemma sint_diff_nonneg:
  fixes x y :: int64
  assumes "0 \<le>s x" and "0 \<le>s y"
  shows "sint (y - x) = sint y - sint x"
proof -
  have x: "0 \<le> sint x" "sint x < 2 ^ 63"
    using assms(1) sint_lt [of x] by (simp_all add: word_sle_eq)
  have y: "0 \<le> sint y" "sint y < 2 ^ 63"
    using assms(2) sint_lt [of y] by (simp_all add: word_sle_eq)
  have "sint (y - x) = signed_take_bit 63 (sint y - sint x)"
    by (simp add: sint_word_ariths)
  also have "\<dots> = sint y - sint x"
    using x y by (intro signed_take_bit_int_eq_self) auto
  finally show ?thesis .
qed

text \<open>
  C6, amended: in every reachable state, for two successive entries \<open>a\<close> then \<open>b\<close>
  of a consumer ring (neighbours in the order oldest to newest), both not artificial
  and both with a timestamp that is not negative, \<open>b\<close> has the greater timestamp or
  the greater offset.
\<close>

theorem C6_ring_monotonic:
  assumes reach: "reachable cfg gb tb storage"
      and ring: "ring_at storage cluster grp topic p = Some r"
      and i: "Suc i < length (ring_Do r)"
      and a: "ring_Do r ! i = Some a" and b: "ring_Do r ! Suc i = Some b"
      and genuine: "\<not> co_artificial a" "\<not> co_artificial b"
      and nonneg: "0 \<le>s co_Timestamp a" "0 \<le>s co_Timestamp b"
  shows "co_Timestamp a <s co_Timestamp b \<or> co_Offset a <s co_Offset b"
proof -
  from ring_at_inv [OF reachable_inv [OF reach] ring]
  have "successively slot_advanced (ring_Do r)" by (simp add: ring_ok_def)
  from successively_nth [OF this i] a b genuine(2) have "advanced a b"
    by (simp add: slot_advanced_def)
  then show ?thesis
    using sint_diff_nonneg [OF nonneg]
    by (auto simp: advanced_def word_sless_alt)
qed

text \<open>
  C6, as stated, fails when the difference of the timestamps wraps around: after a
  commit at timestamp 1100 a commit with the same offset and the least \<open>int64\<close> as
  timestamp has \<open>timestampDifference = 2^63 - 1100 > 0\<close>, passes both gates and is
  stored behind the first, with a smaller timestamp and an equal offset.
\<close>

theorem C6_counterexample:
  "reachable config5 None None (storage_after config5 wrapped_commit) \<and>
   ring_at (storage_after config5 wrapped_commit) ''local'' ''G'' ''T'' 0 =
     Some (Ring None [None, None,
       Some \<lparr>co_Offset = 100, co_Timestamp = 1100, co_Lag = 0, co_artificial = False\<rparr>,
       Some \<lparr>co_Offset = 100, co_Timestamp = - 9223372036854775808, co_Lag = 0,
             co_artificial = False\<rparr>]) \<and>
   \<not> ((1100 :: int64) <s - 9223372036854775808 \<or> (100 :: int64) <s 100)"
proof -
  have "isl (run (NewOffsetStorage config5 None None) wrapped_commit) = False" by code_simp
  then have "reachable config5 None None (storage_after config5 wrapped_commit)"
    by (rule storage_after_reachable)
  moreover have "ring_at (storage_after config5 wrapped_commit) ''local'' ''G'' ''T'' 0 =
     Some (Ring None [None, None,
       Some \<lparr>co_Offset = 100, co_Timestamp = 1100, co_Lag = 0, co_artificial = False\<rparr>,
       Some \<lparr>co_Offset = 100, co_Timestamp = - 9223372036854775808, co_Lag = 0,
             co_artificial = False\<rparr>])"
    by code_simp
  moreover have "\<not> ((1100 :: int64) <s - 9223372036854775808 \<or> (100 :: int64) <s 100)"
    by code_simp
  ultimately show ?thesis by blast
qed

text \<open>C6, amended, on the ring of two commits 19 seconds apart.\<close>

theorem C6_ring_monotonic_witness:
  "reachable config_rate None None (storage_after config_rate two_commits) \<and>
   ring_at (storage_after config_rate two_commits) ''local'' ''G'' ''T'' 0 =
     Some (Ring (Some \<lparr>co_Offset = 100, co_Timestamp = 1000, co_Lag = 0, co_artificial = False\<rparr>)
                [Some \<lparr>co_Offset = 100, co_Timestamp = 20000, co_Lag = 0, co_artificial = False\<rparr>]) \<and>
   ((1000 :: int64) <s 20000 \<or> (100 :: int64) <s 100)"
proof -
  let ?a = "\<lparr>co_Offset = 100, co_Timestamp = 1000, co_Lag = 0, co_artificial = False\<rparr>"
  let ?b = "\<lparr>co_Offset = 100, co_Timestamp = 20000, co_Lag = 0, co_artificial = False\<rparr>"
  let ?r = "Ring (Some ?a) [Some ?b]"
  have "isl (run (NewOffsetStorage config_rate None None) two_commits) = False" by code_simp
  then have reach: "reachable config_rate None None (storage_after config_rate two_commits)"
    by (rule storage_after_reachable)
  have ring: "ring_at (storage_after config_rate two_commits) ''local'' ''G'' ''T'' 0 = Some ?r"
    by code_simp
  have i: "Suc 0 < length (ring_Do ?r)" by simp
  have a: "ring_Do ?r ! 0 = Some ?a" and b: "ring_Do ?r ! Suc 0 = Some ?b" by simp_all
  have g: "\<not> co_artificial ?a" "\<not> co_artificial ?b" by simp_all
  have n: "0 \<le>s co_Timestamp ?a" "0 \<le>s co_Timestamp ?b" by code_simp+
  from C6_ring_monotonic [OF reach ring i a b g n] reach ring show ?thesis by simp
qed

text \<open>C10 on the storage left by two commits and an evaluation.\<close>

theorem C10_ring_has_broker_offset_witness:
  "ring_at (storage_after config_rate two_commits_evaluated) ''local'' ''G'' ''T'' 0 =
     Some (Ring (Some \<lparr>co_Offset = 100, co_Timestamp = 20000, co_Lag = 0, co_artificial = False\<rparr>)
                [Some \<lparr>co_Offset = 100, co_Timestamp = 21000, co_Lag = 0, co_artificial = True\<rparr>]) \<and>
   (\<exists>bl b. broker_vector (storage_after config_rate two_commits_evaluated) ''local'' ''T'' = Some bl \<and>
       0 < length bl \<and> bl ! 0 = Some b) \<and>
   (\<exists>storage' reply. evaluateGroup 22 (storage_after config_rate two_commits_evaluated)
       ''local'' ''G'' True = Inr (storage', reply))"
proof -
  have "isl (run (NewOffsetStorage config_rate None None) two_commits_evaluated) = False"
    by code_simp
  then have reach: "reachable config_rate None None (storage_after config_rate two_commits_evaluated)"
    by (rule storage_after_reachable)
  have ring: "ring_at (storage_after config_rate two_commits_evaluated) ''local'' ''G'' ''T'' 0 =
     Some (Ring (Some \<lparr>co_Offset = 100, co_Timestamp = 20000, co_Lag = 0, co_artificial = False\<rparr>)
                [Some \<lparr>co_Offset = 100, co_Timestamp = 21000, co_Lag = 0, co_artificial = True\<rparr>])"
    by code_simp
  from C10_ring_has_broker_offset [OF reach, of "''local''" "''G''" "''T''" 0 _ 22 True] ring
  show ?thesis by simp
qed

subsection \<open>Repeated evaluation\<close>































text \<open>
  A caught-up group whose window holds no rewind: the two replies show the same to the
  receiver, though each evaluation writes an artificial commit.
\<close>

lemma steady_caught_up_repeats:
  "(case (reply_of (evaluate_after config3 steady_caught_up 3 False),
          reply_of (evaluate_twice_after config3 steady_caught_up 3 False)) of
      (Inr r1, Inr r2) \<Rightarrow>
        fst r2 = fst r1 \<and> reply_Partitions r2 = reply_Partitions r1 \<and>
        reply_Maxlag r2 = reply_Maxlag r1
    | _ \<Rightarrow> False)"
  by code_simp



subsection \<open>Scenario 1, as the code runs it\<close>

lemma copy_ring_length:
  "copy_ring idx vals (pm, y) = Inr (pm', y') \<Longrightarrow>
     length pm' = length pm \<and> (vals \<noteq> [] \<longrightarrow> idx + length vals \<le> length pm)"
proof (induction vals arbitrary: idx pm y)
  case Nil
  then show ?case by simp
next
  case (Cons val vals)
  from Cons.prems obtain c where c: "val = Some c" "idx < length pm"
    and rec: "copy_ring (Suc idx) vals (pm[idx := c],
        if y <s co_Timestamp c then co_Timestamp c else y) = Inr (pm', y')"
    by (auto split: option.splits if_splits)
  from Cons.IH [OF rec] c(2) show ?case by (cases vals) auto
qed

lemma scan_partition_skips:
  "(\<exists>r' acc'. scan_partition cfg now bt partn offsetRing acc = Inr (r', [], acc')) \<longleftrightarrow>
     (offsetRing = None \<or> (\<exists>r. offsetRing = Some r \<and> ring_Value r = None))"
proof
  assume "\<exists>r' acc'. scan_partition cfg now bt partn offsetRing acc = Inr (r', [], acc')"
  then obtain r' acc' where s: "scan_partition cfg now bt partn offsetRing acc = Inr (r', [], acc')"
    by blast
  show "offsetRing = None \<or> (\<exists>r. offsetRing = Some r \<and> ring_Value r = None)"
  proof (rule ccontr)
    assume "\<not> ?thesis"
    then obtain r v where r: "offsetRing = Some r" "ring_Value r = Some v" by (cases offsetRing) auto
    obtain t cm y where acc: "acc = (t, cm, y)" by (cases acc)
    from s r acc obtain r1 y1 where
      "copy_ring 0 (ring_Do r1) (replicate (nat (Intervals cfg)) zero_ConsumerOffset, y) = Inr ([], y1)"
      by (auto simp: scan_partition_def Let_def split: option.splits if_splits sum.splits)
    from copy_ring_length [OF this] ring_Do_nonempty [of r1] show False by auto
  qed
next
  assume "offsetRing = None \<or> (\<exists>r. offsetRing = Some r \<and> ring_Value r = None)"
  then show "\<exists>r' acc'. scan_partition cfg now bt partn offsetRing acc = Inr (r', [], acc')"
    by (cases acc) (auto simp: scan_partition_def)
qed

lemma healthy_catch_up_reply:
  "reply_of (evaluate_after config5 healthy_catch_up now True) =
     Inr (\<lparr>gs_Cluster = ''local'', gs_Group = ''G'', gs_Status = StatusOK, gs_Complete = False,
           gs_Partitions = [], gs_TotalPartitions = 1, gs_Maxlag = None, gs_TotalLag = 0\<rparr>, [])"
  by code_simp

text \<open>
  C1, amended: in scenario 1 (one broker observation, one accepted commit, five slots)
  the evaluation with \<open>show_all\<close> replies status OK, not complete, one partition
  counted and no \<open>PartitionStatus\<close> entry, whatever the clock reads; and the scan
  skips a partition, leaving no offsets for the rules, exactly when its ring is absent
  or the slot at the pointer of the ring is unwritten, that is, until the ring is full.
\<close>

theorem C1_healthy_catch_up:
  "reply_of (evaluate_after config5 healthy_catch_up now True) =
     Inr (\<lparr>gs_Cluster = ''local'', gs_Group = ''G'', gs_Status = StatusOK, gs_Complete = False,
           gs_Partitions = [], gs_TotalPartitions = 1, gs_Maxlag = None, gs_TotalLag = 0\<rparr>, []) \<and>
   ((\<exists>r' acc'. scan_partition cfg now' bt partn offsetRing acc = Inr (r', [], acc')) \<longleftrightarrow>
      (offsetRing = None \<or> (\<exists>r. offsetRing = Some r \<and> ring_Value r = None)))"
  using healthy_catch_up_reply scan_partition_skips by blast

text \<open>C1, amended, on the ring of scenario 1: one written slot, and skipped.\<close>

theorem C1_healthy_catch_up_witness:
  "\<exists>r' acc'. scan_partition config5 2 (Some [Some \<lparr>bo_Offset = 100, bo_Timestamp = 1000\<rparr>]) 0
      (Some (Ring None [None, None, None,
         Some \<lparr>co_Offset = 100, co_Timestamp = 1100, co_Lag = 0, co_artificial = False\<rparr>]))
      (0, True, 0) = Inr (r', [], acc')"
  using C1_healthy_catch_up [of 2 config5 2 "Some [Some \<lparr>bo_Offset = 100, bo_Timestamp = 1000\<rparr>]" 0
      "Some (Ring None [None, None, None,
         Some \<lparr>co_Offset = 100, co_Timestamp = 1100, co_Lag = 0, co_artificial = False\<rparr>])"
      "(0, True, 0)"]
  by simp

end
